theory Spec2Isabelle
  imports Main "HOL-Library.Sublist"
begin

section \<open>Strings\<close>

text \<open>
  The source is TypeScript; its strings are sequences of UTF-16 code units. The model
  uses \<open>string\<close> (a list of 8-bit characters): it covers the strings whose code units
  are below 256 (ASCII and Latin-1), one \<open>char\<close> per code unit, so \<open>length\<close> is
  the source's \<open>.length\<close>.
\<close>

definition in_range :: "char \<Rightarrow> char \<Rightarrow> char \<Rightarrow> bool" where
  "in_range lo hi c = ((of_char lo :: nat) \<le> of_char c \<and> (of_char c :: nat) \<le> of_char hi)"

definition is_lower_az :: "char \<Rightarrow> bool" where
  "is_lower_az c = in_range (CHR ''a'') (CHR ''z'') c"

definition is_upper_az :: "char \<Rightarrow> bool" where
  "is_upper_az c = in_range (CHR ''A'') (CHR ''Z'') c"

definition is_digit :: "char \<Rightarrow> bool" where
  "is_digit c = in_range (CHR ''0'') (CHR ''9'') c"

definition is_alpha :: "char \<Rightarrow> bool" where
  "is_alpha c = (is_lower_az c \<or> is_upper_az c)"

definition is_word :: "char \<Rightarrow> bool" where
  \<comment> \<open>the class \<open>\w\<close>: \<open>[A-Za-z0-9_]\<close>\<close>
  "is_word c = (is_alpha c \<or> is_digit c \<or> c = CHR ''_'')"

definition is_space :: "char \<Rightarrow> bool" where
  \<comment> \<open>the class \<open>\s\<close>, also what \<open>trim\<close> strips: TAB, LF, VT, FF, CR, SPACE, NBSP\<close>
  "is_space c = (c \<in> {CHR 0x09, CHR 0x0A, CHR 0x0B, CHR 0x0C, CHR 0x0D, CHR 0x20, CHR 0xA0})"

definition is_line_terminator :: "char \<Rightarrow> bool" where
  "is_line_terminator c = (c = CHR 0x0A \<or> c = CHR 0x0D)"

definition is_latin1_upper :: "char \<Rightarrow> bool" where
  \<comment> \<open>the upper-case letters of Latin-1 beyond ASCII: 0xC0..0xDE without the sign 0xD7\<close>
  "is_latin1_upper c = (in_range (CHR 0xC0) (CHR 0xDE) c \<and> c \<noteq> CHR 0xD7)"

definition is_latin1_lower :: "char \<Rightarrow> bool" where
  \<comment> \<open>their lower-case partners: 0xE0..0xFE without the sign 0xF7\<close>
  "is_latin1_lower c = (in_range (CHR 0xE0) (CHR 0xFE) c \<and> c \<noteq> CHR 0xF7)"

definition lower_char :: "char \<Rightarrow> char" where
  "lower_char c = (if is_upper_az c \<or> is_latin1_upper c then char_of (of_char c + (32::nat)) else c)"

definition upper_char :: "char \<Rightarrow> char" where
  "upper_char c = (if is_lower_az c \<or> is_latin1_lower c then char_of (of_char c - (32::nat)) else c)"

definition toLowerCase :: "string \<Rightarrow> string" where
  "toLowerCase s = map lower_char s"

definition trim :: "string \<Rightarrow> string" where
  "trim s = rev (dropWhile is_space (rev (dropWhile is_space s)))"

fun str_includes :: "string \<Rightarrow> string \<Rightarrow> bool" where
  "str_includes [] sub = (sub = [])"
| "str_includes (c # cs) sub = (prefix sub (c # cs) \<or> str_includes cs sub)"

definition startsWith :: "string \<Rightarrow> string \<Rightarrow> bool" where
  "startsWith s p = prefix p s"

definition endsWith :: "string \<Rightarrow> string \<Rightarrow> bool" where
  "endsWith s p = suffix p s"

definition join :: "string \<Rightarrow> string list \<Rightarrow> string" where
  \<comment> \<open>\<open>Array.prototype.join\<close> on an array of strings\<close>
  "join sep xs = (case xs of [] \<Rightarrow> [] | y # ys \<Rightarrow> y @ concat (map (\<lambda>x. sep @ x) ys))"

section \<open>Regular expressions\<close>

text \<open>
  The source works through regular-expression literals. They are modelled by a datatype
  of the constructs these literals use and a backtracking matcher that returns, for a
  position, every way the expression can match there, in the priority order of
  ECMAScript (the head of the list is the match the engine reports).
\<close>

datatype regex =
    Cls bool "char \<Rightarrow> bool"
  | Eps
  | Seq regex regex
  | Alt regex regex
  | Rep bool nat "nat option" regex
  | Grp nat regex
  | Bref nat
  | Ahead bool regex
  | WordB
  | Eol
  | Bol

record flags =
  ignoreCase :: bool
  multiline :: bool

record mstate =
  prev :: "char option"
  rest :: string
  caps :: "(nat \<times> string) list"

definition init :: "string \<Rightarrow> mstate" where
  "init s = \<lparr>prev = None, rest = s, caps = []\<rparr>"

definition step :: "mstate \<Rightarrow> mstate" where
  "step st = (case rest st of [] \<Rightarrow> st | c # cs \<Rightarrow> st\<lparr>prev := Some c, rest := cs\<rparr>)"

fun advance :: "nat \<Rightarrow> mstate \<Rightarrow> mstate" where
  "advance 0 st = st"
| "advance (Suc n) st = advance n (step st)"

definition consumed :: "mstate \<Rightarrow> mstate \<Rightarrow> string" where
  \<comment> \<open>the text between two positions of one input\<close>
  "consumed st st' = take (length (rest st) - length (rest st')) (rest st)"

definition group :: "mstate \<Rightarrow> nat \<Rightarrow> string" where
  \<comment> \<open>a capture as a replacement sees it: the empty string when the group took no part\<close>
  "group st n = (case map_of (caps st) n of None \<Rightarrow> [] | Some g \<Rightarrow> g)"

definition cls_match :: "flags \<Rightarrow> bool \<Rightarrow> (char \<Rightarrow> bool) \<Rightarrow> char \<Rightarrow> bool" where
  \<comment> \<open>under \<open>/i\<close> a character is in a class when some member has the same canonical
      (upper-case) form; the inversion of \<open>[^...]\<close> applies after that\<close>
  "cls_match fl neg P c =
     (neg \<noteq> (if ignoreCase fl then P c \<or> P (upper_char c) \<or> P (lower_char c) else P c))"

definition same_text :: "flags \<Rightarrow> string \<Rightarrow> string \<Rightarrow> bool" where
  "same_text fl a b = (if ignoreCase fl then map upper_char a = map upper_char b else a = b)"

function rep :: "(mstate \<Rightarrow> mstate list) \<Rightarrow> bool \<Rightarrow> nat \<Rightarrow> nat option \<Rightarrow> mstate \<Rightarrow> mstate list" where
  "rep m greedy mn mx st =
     (if mx = Some 0 then [st]
      else let more = concat (map (rep m greedy (mn - 1) (map_option (\<lambda>k. k - 1) mx))
                        (filter (\<lambda>st'. 0 < mn \<or> length (rest st') < length (rest st)) (m st)))
           in if 0 < mn then more else if greedy then more @ [st] else st # more)"
  by pat_completeness auto
termination
  by (relation "measures [\<lambda>(m, g, mn, mx, st). mn, \<lambda>(m, g, mn, mx, st). length (rest st)]") auto

primrec ms :: "regex \<Rightarrow> flags \<Rightarrow> mstate \<Rightarrow> mstate list" where
  "ms (Cls neg P) fl st =
     (case rest st of [] \<Rightarrow> [] | c # cs \<Rightarrow> if cls_match fl neg P c then [step st] else [])"
| "ms Eps fl st = [st]"
| "ms (Seq r1 r2) fl st = concat (map (ms r2 fl) (ms r1 fl st))"
| "ms (Alt r1 r2) fl st = ms r1 fl st @ ms r2 fl st"
| "ms (Rep greedy mn mx r) fl st = rep (ms r fl) greedy mn mx st"
| "ms (Grp n r) fl st = map (\<lambda>st'. st'\<lparr>caps := (n, consumed st st') # caps st'\<rparr>) (ms r fl st)"
| "ms (Bref n) fl st =
     (case map_of (caps st) n of
        None \<Rightarrow> [st]
      | Some g \<Rightarrow> if length g \<le> length (rest st) \<and> same_text fl (take (length g) (rest st)) g
                  then [advance (length g) st] else [])"
| "ms (Ahead pos r) fl st =
     (case ms r fl st of
        [] \<Rightarrow> if pos then [] else [st]
      | st' # _ \<Rightarrow> if pos then [st\<lparr>caps := caps st'\<rparr>] else [])"
| "ms WordB fl st =
     (if (case prev st of None \<Rightarrow> False | Some c \<Rightarrow> is_word c)
         \<noteq> (case rest st of [] \<Rightarrow> False | c # _ \<Rightarrow> is_word c) then [st] else [])"
| "ms Eol fl st =
     (case rest st of [] \<Rightarrow> [st] | c # _ \<Rightarrow> if multiline fl \<and> is_line_terminator c then [st] else [])"
| "ms Bol fl st =
     (case prev st of None \<Rightarrow> [st] | Some c \<Rightarrow> if multiline fl \<and> is_line_terminator c then [st] else [])"

subsection \<open>The operations of \<open>RegExp\<close> and \<open>String\<close> that the source calls\<close>

definition at_pos :: "char option \<Rightarrow> string \<Rightarrow> mstate" where
  "at_pos p s = \<lparr>prev = p, rest = s, caps = []\<rparr>"

primrec search_from :: "regex \<Rightarrow> flags \<Rightarrow> char option \<Rightarrow> string \<Rightarrow> (mstate \<times> mstate) option" where
  "search_from r fl p [] =
     (case ms r fl (at_pos p []) of [] \<Rightarrow> None | st' # _ \<Rightarrow> Some (at_pos p [], st'))"
| "search_from r fl p (c # cs) =
     (case ms r fl (at_pos p (c # cs)) of
        [] \<Rightarrow> search_from r fl (Some c) cs
      | st' # _ \<Rightarrow> Some (at_pos p (c # cs), st'))"

definition regex_exec :: "regex \<Rightarrow> flags \<Rightarrow> string \<Rightarrow> (mstate \<times> mstate) option" where
  \<comment> \<open>the leftmost match: the position where it starts and the state where it ends\<close>
  "regex_exec r fl s = search_from r fl None s"

definition regex_test :: "regex \<Rightarrow> flags \<Rightarrow> string \<Rightarrow> bool" where
  \<comment> \<open>\<open>RegExp.prototype.test\<close> on a fresh expression, and the truth value of
      \<open>String.prototype.match\<close>\<close>
  "regex_test r fl s = (regex_exec r fl s \<noteq> None)"

definition str_match :: "regex \<Rightarrow> flags \<Rightarrow> string \<Rightarrow> (string \<times> (nat \<Rightarrow> string)) option" where
  \<comment> \<open>\<open>String.prototype.match\<close> without \<open>/g\<close>: the matched text and the captures\<close>
  "str_match r fl s =
     (case regex_exec r fl s of None \<Rightarrow> None | Some (st, st') \<Rightarrow> Some (consumed st st', group st'))"

function replace_loop ::
  "regex \<Rightarrow> flags \<Rightarrow> bool \<Rightarrow> (string \<Rightarrow> (nat \<Rightarrow> string) \<Rightarrow> string) \<Rightarrow> mstate \<Rightarrow> string" where
  "replace_loop r fl global f st =
     (case ms r fl (st\<lparr>caps := []\<rparr>) of
        [] \<Rightarrow> (case rest st of [] \<Rightarrow> [] | c # cs \<Rightarrow> c # replace_loop r fl global f (step st))
      | st' # _ \<Rightarrow>
          f (consumed st st') (group st') @
          (if \<not> global then rest st'
           else if length (rest st') < length (rest st) then replace_loop r fl global f st'
           else (case rest st of [] \<Rightarrow> [] | c # cs \<Rightarrow> c # replace_loop r fl global f (step st))))"
  by pat_completeness auto
termination
  by (relation "measure (\<lambda>(r, fl, global, f, st). length (rest st))") (auto simp: step_def)

definition replace_all :: "regex \<Rightarrow> flags \<Rightarrow> (string \<Rightarrow> (nat \<Rightarrow> string) \<Rightarrow> string) \<Rightarrow> string \<Rightarrow> string" where
  \<comment> \<open>\<open>s.replace(/r/g, f)\<close>: every match, left to right, none overlapping; the replacement
      is given as a function of the matched text and the captures, which covers both the
      \<open>$n\<close> templates and the callbacks of the source\<close>
  "replace_all r fl f s = replace_loop r fl True f (init s)"

definition replace_first :: "regex \<Rightarrow> flags \<Rightarrow> (string \<Rightarrow> (nat \<Rightarrow> string) \<Rightarrow> string) \<Rightarrow> string \<Rightarrow> string" where
  \<comment> \<open>\<open>s.replace(/r/, f)\<close> without \<open>/g\<close>: the leftmost match only\<close>
  "replace_first r fl f s = replace_loop r fl False f (init s)"

function match_loop :: "regex \<Rightarrow> flags \<Rightarrow> mstate \<Rightarrow> string list" where
  "match_loop r fl st =
     (case ms r fl (st\<lparr>caps := []\<rparr>) of
        [] \<Rightarrow> (case rest st of [] \<Rightarrow> [] | c # cs \<Rightarrow> match_loop r fl (step st))
      | st' # _ \<Rightarrow>
          consumed st st' #
          (if length (rest st') < length (rest st) then match_loop r fl st'
           else (case rest st of [] \<Rightarrow> [] | c # cs \<Rightarrow> match_loop r fl (step st))))"
  by pat_completeness auto
termination
  by (relation "measure (\<lambda>(r, fl, st). length (rest st))") (auto simp: step_def)

definition match_all :: "regex \<Rightarrow> flags \<Rightarrow> string \<Rightarrow> string list" where
  \<comment> \<open>\<open>s.match(/r/g) || []\<close>: the matched texts\<close>
  "match_all r fl s = match_loop r fl (init s)"

function split_loop :: "regex \<Rightarrow> flags \<Rightarrow> string \<Rightarrow> mstate \<Rightarrow> string list" where
  "split_loop r fl piece st =
     (case rest st of
        [] \<Rightarrow> [piece]
      | c # cs \<Rightarrow>
          (case ms r fl (st\<lparr>caps := []\<rparr>) of
             [] \<Rightarrow> split_loop r fl (piece @ [c]) (step st)
           | st' # _ \<Rightarrow>
               if length (rest st') < length (rest st) then piece # split_loop r fl [] st'
               else if piece = [] then split_loop r fl [c] (step st)
               else piece # split_loop r fl [c] (step st)))"
  by pat_completeness auto
termination
  by (relation "measure (\<lambda>(r, fl, piece, st). length (rest st))") (auto simp: step_def)

definition split :: "regex \<Rightarrow> flags \<Rightarrow> string \<Rightarrow> string list" where
  \<comment> \<open>\<open>s.split(/r/)\<close> for an expression without capture groups: the separator is tried
      at every position short of the end; an empty match where the current piece starts
      is skipped; the empty string gives one empty piece unless the expression matches it\<close>
  "split r fl s =
     (if s = [] then (if ms r fl (init s) = [] then [[]] else []) else split_loop r fl [] (init s))"

subsection \<open>Writing expressions\<close>

definition chr :: "char \<Rightarrow> regex" where
  "chr c = Cls False (\<lambda>x. x = c)"

definition one_of :: "string \<Rightarrow> regex" where
  \<comment> \<open>\<open>[...]\<close> over the listed characters\<close>
  "one_of cs = Cls False (\<lambda>x. x \<in> set cs)"

definition none_of :: "string \<Rightarrow> regex" where
  \<comment> \<open>\<open>[^...]\<close> over the listed characters\<close>
  "none_of cs = Cls True (\<lambda>x. x \<in> set cs)"

definition seqs :: "regex list \<Rightarrow> regex" where
  "seqs rs = foldr Seq rs Eps"

definition lit :: "string \<Rightarrow> regex" where
  "lit s = seqs (map chr s)"

definition star :: "regex \<Rightarrow> regex" where
  "star r = Rep True 0 None r"

definition plus :: "regex \<Rightarrow> regex" where
  "plus r = Rep True 1 None r"

definition opt :: "regex \<Rightarrow> regex" where
  "opt r = Rep True 0 (Some 1) r"

definition lazy_star :: "regex \<Rightarrow> regex" where
  "lazy_star r = Rep False 0 None r"

definition no_flags :: flags where
  "no_flags = \<lparr>ignoreCase = False, multiline = False\<rparr>"

definition flag_i :: flags where
  "flag_i = \<lparr>ignoreCase = True, multiline = False\<rparr>"

definition flag_m :: flags where
  "flag_m = \<lparr>ignoreCase = False, multiline = True\<rparr>"

definition space :: regex where
  "space = Cls False is_space"

definition word :: regex where
  "word = Cls False is_word"

definition any_char :: regex where
  \<comment> \<open>\<open>[\s\S]\<close>\<close>
  "any_char = Cls False (\<lambda>c. True)"

section \<open>Completion controller\<close>

text \<open>Module constants of \<open>responseCompletion.ts\<close>.\<close>

definition RESPONSE_TIMEOUT :: int where
  "RESPONSE_TIMEOUT = 600000"

definition MAX_RETRIES :: int where
  "MAX_RETRIES = 3"

definition CONTINUATION_PROMPT :: string where
  "CONTINUATION_PROMPT = ''Please complete your previous response starting from where you left off.''"

text \<open>
  \<open>ResponseCompletionOptions\<close>: every field is optional; \<open>None\<close> is \<open>undefined\<close>.
  Numbers are modelled as integers (fractions and \<open>NaN\<close> are left out).
\<close>

record ResponseCompletionOptions =
  maxRetries :: "int option"
  timeout :: "int option"
  continuationPrompt :: "string option"

record CompletionIssue =
  hasIssue :: bool
  reason :: string

subsection \<open>\<open>detectResponseIssues\<close>\<close>

definition loopPattern :: regex where
  \<comment> \<open>\<open>/(\b\w+\b)(?:\s+\1){5,}/gi\<close>\<close>
  "loopPattern =
     Seq (Grp 1 (seqs [WordB, plus word, WordB]))
         (Rep True 5 None (Seq (plus space) (Bref 1)))"

definition endPunctuation :: regex where
  \<comment> \<open>\<open>/[.!?]$/\<close>\<close>
  "endPunctuation = Seq (one_of ''.!?'') Eol"

definition detectResponseIssues :: "string \<Rightarrow> CompletionIssue" where
  "detectResponseIssues text =
     (if regex_test loopPattern flag_i text
      then \<lparr>hasIssue = True, reason = ''Repetitive loop detected''\<rparr>
      else if length text > 100 \<and> \<not> regex_test endPunctuation no_flags (trim text)
      then \<lparr>hasIssue = True, reason = ''Abrupt ending without punctuation''\<rparr>
      else if str_includes text ''{'' \<and> \<not> str_includes text ''}''
      then \<lparr>hasIssue = True, reason = ''Incomplete JSON structure''\<rparr>
      else if str_includes text ''<think>'' \<and> \<not> str_includes text ''</think>''
      then \<lparr>hasIssue = True, reason = ''Unclosed thinking tags''\<rparr>
      else \<lparr>hasIssue = False, reason = ''''\<rparr>)"

subsection \<open>\<open>combinePartialResponses\<close>\<close>

definition slice_last :: "nat \<Rightarrow> 'a list \<Rightarrow> 'a list" where
  \<comment> \<open>\<open>xs.slice(-i)\<close>: the last \<open>i\<close> elements, all of them when there are fewer\<close>
  "slice_last i xs = drop (length xs - i) xs"

definition overlap_step :: "string list \<Rightarrow> string list \<Rightarrow> nat \<Rightarrow> nat \<Rightarrow> nat" where
  \<comment> \<open>one round of the \<open>for\<close> loop: \<open>overlap\<close> becomes \<open>i\<close> when the joined ends agree\<close>
  "overlap_step words1 words2 overlap i =
     (let end1 = join '' '' (slice_last i words1);
          start2 = join '' '' (take i words2)
      in if toLowerCase end1 = toLowerCase start2 then i else overlap)"

definition combinePartialResponses :: "string \<Rightarrow> string \<Rightarrow> string" where
  "combinePartialResponses first second =
     (let firstTrimmed = trim first;
          secondTrimmed = trim second;
          words1 = split (plus space) no_flags firstTrimmed;
          words2 = split (plus space) no_flags secondTrimmed;
          maxOverlap = min 10 (min (length words1) (length words2));
          overlap = foldl (overlap_step words1 words2) 0 [1 ..< Suc maxOverlap]
      in if overlap > 0 then join '' '' (words1 @ drop overlap words2)
         else firstTrimmed @ [CHR 0x0A, CHR 0x0A] @ secondTrimmed)"

subsection \<open>\<open>createSimplifiedPrompt\<close>\<close>

definition queryPattern :: regex where
  \<comment> \<open>\<open>/(?:Query|Question|User asks?):\s*["']?([^"'\n]+)["']?/i\<close>\<close>
  "queryPattern =
     seqs [Alt (lit ''Query'') (Alt (lit ''Question'') (Seq (lit ''User ask'') (opt (chr CHR ''s'')))),
           chr CHR '':'', star space,
           opt (one_of [CHR 0x22, CHR 0x27]),
           Grp 1 (plus (none_of [CHR 0x22, CHR 0x27, CHR 0x0A])),
           opt (one_of [CHR 0x22, CHR 0x27])]"

definition createSimplifiedPrompt :: "string \<Rightarrow> string" where
  "createSimplifiedPrompt originalPrompt =
     (let query = (case str_match queryPattern flag_i originalPrompt of
                     Some (m, g) \<Rightarrow> g 1
                   | None \<Rightarrow> ''Please extract relevant information'')
      in ''Extract information to answer: '' @ query @ [CHR 0x0A, CHR 0x0A]
         @ ''Provide a direct, simple answer with key facts only.'' @ [CHR 0x0A]
         @ ''No thinking, no analysis, just the facts.'')"

subsection \<open>\<open>generateWithCompletion\<close>\<close>

text \<open>
  What can be thrown: an \<open>Error\<close> object with its message, or any other value (which
  fails the test \<open>error instanceof Error\<close>).
\<close>

datatype thrown = ErrorObj string | NonError string

text \<open>
  The generation capability is asynchronous. One call either resolves with a text or
  rejects with a thrown value, some milliseconds after the call, or never settles.
  The capability may keep state of its own between calls: it is a function of that
  state and the prompt.
\<close>

datatype settle = Resolves nat string | Rejects nat thrown | Pending

type_synonym 's generateFn = "'s \<Rightarrow> string \<Rightarrow> settle \<times> 's"

text \<open>
  What the controller does to the outside is recorded in a trace: each call of the
  capability with its prompt, and each delay it waits with its length in milliseconds.
\<close>

datatype event = Called string | Waited nat

type_synonym 's world = "'s \<times> event list"

definition race :: "int \<Rightarrow> settle \<Rightarrow> thrown + string" where
  \<comment> \<open>\<open>Promise.race([generationPromise, timeoutPromise])\<close>: the generation wins when it
      settles before the timer of \<open>timeout\<close> milliseconds fires; otherwise the timer
      rejects with \<open>new Error('Response timeout')\<close>\<close>
  "race tmo out =
     (case out of
        Resolves t text \<Rightarrow> if int t < tmo then Inr text else Inl (ErrorObj ''Response timeout'')
      | Rejects t e \<Rightarrow> if int t < tmo then Inl e else Inl (ErrorObj ''Response timeout'')
      | Pending \<Rightarrow> Inl (ErrorObj ''Response timeout''))"

definition or_default :: "int option \<Rightarrow> int \<Rightarrow> int" where
  \<comment> \<open>\<open>x || d\<close> on an optional number: \<open>undefined\<close> and \<open>0\<close> are falsy\<close>
  "or_default x d = (case x of None \<Rightarrow> d | Some n \<Rightarrow> if n = 0 then d else n)"

definition or_default_str :: "string option \<Rightarrow> string \<Rightarrow> string" where
  \<comment> \<open>\<open>x || d\<close> on an optional string: \<open>undefined\<close> and the empty string are falsy\<close>
  "or_default_str x d = (case x of None \<Rightarrow> d | Some s \<Rightarrow> if s = [] then d else s)"

definition continuationText :: "string \<Rightarrow> string \<Rightarrow> string \<Rightarrow> string" where
  "continuationText prompt text cont =
     prompt @ [CHR 0x0A, CHR 0x0A] @ ''Previous partial response:'' @ [CHR 0x0A] @ text
       @ [CHR 0x0A, CHR 0x0A] @ cont"

definition shorterPrompt :: "string \<Rightarrow> string" where
  "shorterPrompt prompt =
     (if length prompt > 500
      then take 500 prompt @ [CHR 0x0A, CHR 0x0A] @ ''Please provide a direct answer.''
      else prompt)"

definition wait :: "nat \<Rightarrow> 's world \<Rightarrow> 's world" where
  "wait millis w = (fst w, snd w @ [Waited millis])"

function generateWithCompletion ::
  "'s generateFn \<Rightarrow> string \<Rightarrow> ResponseCompletionOptions \<Rightarrow> int \<Rightarrow> 's world
     \<Rightarrow> (thrown + string) \<times> 's world" where
  "generateWithCompletion generateFn prompt options attempt w =
     (let maxR = or_default (maxRetries options) MAX_RETRIES;
          tmo = or_default (timeout options) RESPONSE_TIMEOUT;
          cont = or_default_str (continuationPrompt options) CONTINUATION_PROMPT;
          (out, s1) = generateFn (fst w) prompt;
          w1 = (s1, snd w @ [Called prompt]);
          tried =
            (case race tmo out of
               Inl e \<Rightarrow> (Inl e, w1)
             | Inr text \<Rightarrow>
                 if text = [] \<or> length (trim text) = 0
                 then (Inl (ErrorObj ''Model returned empty response''), w1)
                 else if hasIssue (detectResponseIssues text) \<and> attempt < maxR
                 then (case generateWithCompletion generateFn (continuationText prompt text cont)
                              options (attempt + 1) w1 of
                         (Inl e, w2) \<Rightarrow> (Inl e, w2)
                       | (Inr continuedResponse, w2) \<Rightarrow>
                           (Inr (combinePartialResponses text continuedResponse), w2))
                 else (Inr text, w1))
      in case tried of
           (Inr text, w3) \<Rightarrow> (Inr text, w3)
         | (Inl (NonError v), w3) \<Rightarrow> (Inl (NonError v), w3)
         | (Inl (ErrorObj message), w3) \<Rightarrow>
             if (str_includes message ''Invalid JSON response''
                 \<or> str_includes message ''Ollama API rejected response'') \<and> attempt < maxR
             then generateWithCompletion generateFn (createSimplifiedPrompt prompt) options
                    (attempt + 1) (wait 2000 w3)
             else if str_includes message (''done'' @ [CHR 0x22] @ '': false'') \<and> attempt < maxR
             then generateWithCompletion generateFn prompt options (attempt + 1) (wait 1000 w3)
             else if str_includes message ''timeout'' \<and> attempt < maxR
             then generateWithCompletion generateFn (shorterPrompt prompt) options
                    (attempt + 1) (wait 1000 w3)
             else (Inl (ErrorObj message), w3))"
  by pat_completeness auto
termination
  by (relation "measure (\<lambda>(g, p, options, attempt, w).
        nat (or_default (maxRetries options) MAX_RETRIES - attempt))") auto

text \<open>
  The recursive equations are unfolded on demand only.
\<close>

declare rep.simps [simp del]
declare replace_loop.simps [simp del]
declare match_loop.simps [simp del]
declare split_loop.simps [simp del]
declare generateWithCompletion.simps [simp del]

text \<open>
  A call settles within the timeout window when it resolves or rejects before the
  timer fires; \<open>default_options\<close> is the call \<open>generateWithCompletion(generateFn, prompt)\<close>
  with no options object.
\<close>

definition settles_within :: "int \<Rightarrow> settle \<Rightarrow> bool" where
  "settles_within tmo out =
     (case out of Resolves t v \<Rightarrow> int t < tmo | Rejects t e \<Rightarrow> int t < tmo | Pending \<Rightarrow> False)"

definition default_options :: ResponseCompletionOptions where
  "default_options = \<lparr>maxRetries = None, timeout = None, continuationPrompt = None\<rparr>"

section \<open>Resilient decoder\<close>

subsection \<open>The cleanup pipeline\<close>

text \<open>
  Each step of \<open>cleanJsonText\<close>, \<open>fixArrayElementSeparation\<close> and
  \<open>fixEscapeCharacterIssues\<close> is one \<open>replace\<close> call of the source; the expression
  literal is quoted at each definition. Replacement templates \<open>$n\<close> are written as
  functions of the captures.
\<close>

definition backslash :: char where
  "backslash = CHR 0x5C"

definition dquote :: char where
  "dquote = CHR 0x22"

definition squote :: char where
  "squote = CHR 0x27"

definition smartDoubleQuotes :: regex where
  \<comment> \<open>the class of the two curly double quotes, U+201C and U+201D: code units
      above 255, none of which occurs in the strings of this model\<close>
  "smartDoubleQuotes = one_of []"

definition smartSingleQuotes :: regex where
  \<comment> \<open>the class of the two curly single quotes, U+2018 and U+2019, likewise\<close>
  "smartSingleQuotes = one_of []"

definition trailingComma :: regex where
  \<comment> \<open>\<open>/,(\s*[}\]])/g\<close>\<close>
  "trailingComma = Seq (chr CHR '','') (Grp 1 (Seq (star space) (one_of ''}]'')))"

definition unescapedQuotes :: "string \<Rightarrow> regex" where
  \<comment> \<open>\<open>/: "([^"]*)"([^",}\]]*)"([^",}\]]*)",/g\<close> in \<open>cleanJsonText\<close> and the same after
      a leading \<open>"\<close> in \<open>fixArrayElementSeparation\<close>; the argument is that leading part\<close>
  "unescapedQuotes lead =
     seqs [lit lead, lit '': '', chr dquote,
           Grp 1 (star (none_of [dquote])), chr dquote,
           Grp 2 (star (none_of (dquote # '',}]''))), chr dquote,
           Grp 3 (star (none_of (dquote # '',}]''))), chr dquote, chr CHR '','']"

definition escapeInnerQuotes :: "string \<Rightarrow> string \<Rightarrow> (nat \<Rightarrow> string) \<Rightarrow> string" where
  \<comment> \<open>the template \<open>': "$1\\"$2\\"$3",'\<close>, after the same leading part\<close>
  "escapeInnerQuotes lead m g =
     lead @ '': '' @ [dquote] @ g 1 @ [backslash, dquote] @ g 2 @ [backslash, dquote] @ g 3
       @ [dquote, CHR '','']"

definition lineComment :: regex where
  \<comment> \<open>\<open>/\/\/[^\n]*/g\<close>\<close>
  "lineComment = Seq (lit ''//'') (star (none_of [CHR 0x0A]))"

definition blockComment :: regex where
  \<comment> \<open>\<open>/\/\*[\s\S]*?\*\//g\<close>\<close>
  "blockComment = seqs [lit ''/*'', lazy_star any_char, lit ''*/'']"

definition fenceOpen :: regex where
  \<comment> \<open>\<open>/```json\s*/\<close>\<close>
  "fenceOpen = Seq (lit ''```json'') (star space)"

definition fenceClose :: regex where
  \<comment> \<open>\<open>/```\s*$/\<close>\<close>
  "fenceClose = seqs [lit ''```'', star space, Eol]"

definition unquotedKey :: regex where
  \<comment> \<open>\<open>/(\w+):/g\<close>\<close>
  "unquotedKey = Seq (Grp 1 (plus word)) (chr CHR '':'')"

definition unquotedValue :: regex where
  \<comment> \<open>\<open>/: ([a-zA-Z_][a-zA-Z0-9_]*)/g\<close>\<close>
  "unquotedValue =
     Seq (lit '': '')
         (Grp 1 (Seq (Cls False (\<lambda>c. is_alpha c \<or> c = CHR ''_'')) (star word)))"

definition quoted :: "string \<Rightarrow> string" where
  "quoted s = [dquote] @ s @ [dquote]"

definition singleQuotedKey :: regex where
  \<comment> \<open>\<open>/'([A-Za-z0-9_]+)'\s*:/g\<close>\<close>
  "singleQuotedKey = seqs [chr squote, Grp 1 (plus word), chr squote, star space, chr CHR '':'']"

definition singleQuotedValue :: regex where
  \<comment> \<open>\<open>/:\s*'([^']*)'/g\<close>\<close>
  "singleQuotedValue =
     seqs [chr CHR '':'', star space, chr squote, Grp 1 (star (none_of [squote])), chr squote]"

definition bareValue :: regex where
  \<comment> \<open>\<open>/:\s*(?!true\b|false\b|null\b)([A-Za-z][A-Za-z0-9_\-\/.\s]*?)(?=\s*[,}\]])/g\<close>\<close>
  "bareValue =
     seqs [chr CHR '':'', star space,
           Ahead False (Alt (Seq (lit ''true'') WordB)
                         (Alt (Seq (lit ''false'') WordB) (Seq (lit ''null'') WordB))),
           Grp 1 (Seq (Cls False is_alpha)
                      (lazy_star (Cls False (\<lambda>c. is_word c \<or> c \<in> set ''-/.'' \<or> is_space c)))),
           Ahead True (Seq (star space) (one_of '',}]''))]"

definition plainNumber :: regex where
  \<comment> \<open>\<open>/^-?\d+(?:\.\d+)?$/\<close>\<close>
  "plainNumber =
     seqs [Bol, opt (chr CHR ''-''), plus (Cls False is_digit),
           opt (Seq (chr CHR ''.'') (plus (Cls False is_digit))), Eol]"

definition quoteBareValue :: "string \<Rightarrow> (nat \<Rightarrow> string) \<Rightarrow> string" where
  \<comment> \<open>the callback \<open>(m, v) => ...\<close> of the last replacement of \<open>cleanJsonText\<close>\<close>
  "quoteBareValue m g =
     (let val = trim (g 1)
      in if val = [] then '': '' @ [dquote, dquote]
         else if startsWith val [dquote] \<or> startsWith val [squote] \<or> startsWith val ''[''
                 \<or> startsWith val ''{'' \<or> regex_test plainNumber no_flags val
         then '': '' @ val
         else '': '' @ quoted (replace_all (chr dquote) no_flags (\<lambda>m g. [backslash, dquote]) val))"

subsection \<open>\<open>fixArrayElementSeparation\<close>\<close>

definition adjacentObjects :: regex where
  \<comment> \<open>\<open>/\}\s*\{/g\<close>\<close>
  "adjacentObjects = seqs [chr CHR ''}'', star space, chr CHR ''{'']"

definition adjacentStrings :: regex where
  \<comment> \<open>\<open>/"\s+"([^",}\]]+)"/g\<close>\<close>
  "adjacentStrings =
     seqs [chr dquote, plus space, chr dquote, Grp 1 (plus (none_of (dquote # '',}]''))), chr dquote]"

definition spaceBeforeBracket :: regex where
  \<comment> \<open>\<open>/([^,\s])\s*\]/g\<close>\<close>
  "spaceBeforeBracket =
     seqs [Grp 1 (Cls True (\<lambda>c. c = CHR '','' \<or> is_space c)), star space, chr CHR '']'']"

definition incompleteObject :: regex where
  \<comment> \<open>\<open>/\{\s*"([^"]*)":\s*"([^"]*)"([^,}]*)\s*\}/g\<close>\<close>
  "incompleteObject =
     seqs [chr CHR ''{'', star space, chr dquote, Grp 1 (star (none_of [dquote])), chr dquote,
           chr CHR '':'', star space, chr dquote, Grp 2 (star (none_of [dquote])), chr dquote,
           Grp 3 (star (none_of '',}'')), star space, chr CHR ''}'']"

definition truncatedEllipsis :: regex where
  \<comment> \<open>\<open>/:\s*"([^"]*[a-zA-Z])\.\.\./g\<close>\<close>
  "truncatedEllipsis =
     seqs [chr CHR '':'', star space, chr dquote,
           Grp 1 (Seq (star (none_of [dquote])) (Cls False is_alpha)), lit ''...'']"

definition truncatedString :: regex where
  \<comment> \<open>\<open>/:\s*"([^"]*)\s*$/gm\<close>\<close>
  "truncatedString =
     seqs [chr CHR '':'', star space, chr dquote, Grp 1 (star (none_of [dquote])), star space, Eol]"

definition commaRun :: regex where
  \<comment> \<open>\<open>/,+/g\<close>\<close>
  "commaRun = plus (chr CHR '','')"

definition closeTruncatedObject :: "string \<Rightarrow> string" where
  \<comment> \<open>Fix 7: the block \<open>if (fixed.includes('{') && !fixed.includes('}')) { ... }\<close>\<close>
  "closeTruncatedObject fixed =
     (if str_includes fixed ''{'' \<and> \<not> str_includes fixed ''}''
      then let openBraces = length (match_all (chr CHR ''{'') no_flags fixed);
               closeBraces = length (match_all (chr CHR ''}'') no_flags fixed)
           in if openBraces > closeBraces
              then fixed @ replicate (openBraces - closeBraces) CHR ''}''
              else fixed
      else fixed)"

definition fixArrayElementSeparation :: "string \<Rightarrow> string" where
  \<comment> \<open>the \<open>try\<close> block; nothing in it can throw, so the \<open>catch\<close> branch, which would
      return the input unchanged, is never taken\<close>
  "fixArrayElementSeparation jsonText =
     (let fixed = jsonText;
          fixed = replace_all adjacentObjects no_flags (\<lambda>m g. ''},{'') fixed;
          fixed = replace_all adjacentStrings no_flags
                    (\<lambda>m g. [dquote] @ '', '' @ quoted (g 1)) fixed;
          fixed = replace_all spaceBeforeBracket no_flags (\<lambda>m g. g 1 @ '']'') fixed;
          fixed = replace_all incompleteObject no_flags
                    (\<lambda>m g. ''{'' @ quoted (g 1) @ '': '' @ quoted (g 2) @ ''}'') fixed;
          fixed = replace_all truncatedEllipsis no_flags (\<lambda>m g. '': '' @ quoted (g 1)) fixed;
          fixed = replace_all truncatedString flag_m (\<lambda>m g. '': '' @ quoted (g 1)) fixed;
          fixed = replace_all (unescapedQuotes [dquote]) no_flags (escapeInnerQuotes [dquote]) fixed;
          fixed = closeTruncatedObject fixed;
          fixed = replace_all commaRun no_flags (\<lambda>m g. '','') fixed;
          fixed = replace_all trailingComma no_flags (\<lambda>m g. g 1) fixed
      in fixed)"

subsection \<open>\<open>fixEscapeCharacterIssues\<close>\<close>

definition badEscape :: regex where
  \<comment> \<open>\<open>/\\[^"\\\/bfnrtux]/g\<close>\<close>
  "badEscape = Seq (chr backslash) (none_of (dquote # backslash # ''/bfnrtux''))"

definition escapeBadEscape :: "string \<Rightarrow> (nat \<Rightarrow> string) \<Rightarrow> string" where
  \<comment> \<open>the callback \<open>(match) => ...\<close>: \<open>match[1]\<close> is the character after the backslash\<close>
  "escapeBadEscape m g =
     (case m of
        b # c # _ \<Rightarrow> if is_alpha c \<or> is_digit c then [backslash, backslash, c] else m
      | _ \<Rightarrow> m)"

definition loneBackslash :: regex where
  \<comment> \<open>\<open>/\\(?=[^"\\\/bfnrtu])/g\<close>\<close>
  "loneBackslash =
     Seq (chr backslash) (Ahead True (none_of (dquote # backslash # ''/bfnrtu'')))"

definition trailingBackslashes :: regex where
  \<comment> \<open>\<open>/\\+$/g\<close>\<close>
  "trailingBackslashes = Seq (plus (chr backslash)) Eol"

definition backslashesBeforeQuote :: regex where
  \<comment> \<open>\<open>/\\+"/g\<close>\<close>
  "backslashesBeforeQuote = Seq (plus (chr backslash)) (chr dquote)"

definition is_hex :: "char \<Rightarrow> bool" where
  "is_hex c = (is_digit c \<or> in_range (CHR ''a'') (CHR ''f'') c \<or> in_range (CHR ''A'') (CHR ''F'') c)"

definition badUnicodeEscape :: regex where
  \<comment> \<open>\<open>/\\u(?![0-9a-fA-F]{4})/g\<close>\<close>
  "badUnicodeEscape =
     seqs [chr backslash, chr CHR ''u'', Ahead False (Rep True 4 (Some 4) (Cls False is_hex))]"

definition fixEscapeCharacterIssues :: "string \<Rightarrow> string" where
  "fixEscapeCharacterIssues s =
     (let s = replace_all badEscape no_flags escapeBadEscape s;
          s = replace_all loneBackslash no_flags (\<lambda>m g. [backslash, backslash]) s;
          s = replace_all trailingBackslashes no_flags (\<lambda>m g. []) s;
          s = replace_all backslashesBeforeQuote no_flags (\<lambda>m g. [backslash, dquote]) s;
          s = replace_all badUnicodeEscape no_flags (\<lambda>m g. [backslash, backslash, CHR ''u'']) s
      in s)"

subsection \<open>\<open>cleanJsonText\<close>\<close>

definition cleanJsonText :: "string \<Rightarrow> string" where
  "cleanJsonText jsonText =
     (let cleaned = jsonText;
          cleaned = replace_all smartDoubleQuotes no_flags (\<lambda>m g. [dquote]) cleaned;
          cleaned = replace_all smartSingleQuotes no_flags (\<lambda>m g. [squote]) cleaned;
          cleaned = replace_all trailingComma no_flags (\<lambda>m g. g 1) cleaned;
          cleaned = replace_all (unescapedQuotes []) no_flags (escapeInnerQuotes []) cleaned;
          cleaned = replace_all lineComment no_flags (\<lambda>m g. []) cleaned;
          cleaned = replace_all blockComment no_flags (\<lambda>m g. []) cleaned;
          cleaned = replace_first fenceOpen no_flags (\<lambda>m g. []) cleaned;
          cleaned = replace_first fenceClose no_flags (\<lambda>m g. []) cleaned;
          cleaned = replace_all unquotedKey no_flags (\<lambda>m g. quoted (g 1) @ '':'') cleaned;
          cleaned = replace_all unquotedValue no_flags (\<lambda>m g. '': '' @ quoted (g 1)) cleaned;
          cleaned = replace_all (lit ('': '' @ quoted ''true'')) no_flags (\<lambda>m g. '': true'') cleaned;
          cleaned = replace_all (lit ('': '' @ quoted ''false'')) no_flags (\<lambda>m g. '': false'') cleaned;
          cleaned = replace_all (lit ('': '' @ quoted ''null'')) no_flags (\<lambda>m g. '': null'') cleaned;
          cleaned = fixArrayElementSeparation cleaned;
          cleaned = fixEscapeCharacterIssues cleaned;
          cleaned = replace_all singleQuotedKey no_flags (\<lambda>m g. quoted (g 1) @ '':'') cleaned;
          cleaned = replace_all singleQuotedValue no_flags (\<lambda>m g. '': '' @ quoted (g 1)) cleaned;
          cleaned = replace_all bareValue no_flags quoteBareValue cleaned
      in trim cleaned)"

subsection \<open>\<open>JSON.parse\<close>\<close>

text \<open>
  \<open>JSON.parse\<close> is a built-in of the language. It is modelled as a strict parser of the
  JSON grammar (ECMA-404): \<open>None\<close> stands for the \<open>SyntaxError\<close> it throws. A number is
  kept as its literal text; an object is kept as the list of its members in source order
  (a later member with the same key replaces the earlier one, as assignment to a
  property does). An escape \<open>\uXXXX\<close> is decoded to the character with that code, which
  is a character of this model when the code is below 256.
\<close>

datatype json =
    JNull
  | JBool bool
  | JNumber string
  | JString string
  | JArray "json list"
  | JObject "(string \<times> json) list"

definition is_json_ws :: "char \<Rightarrow> bool" where
  "is_json_ws c = (c \<in> {CHR 0x20, CHR 0x09, CHR 0x0A, CHR 0x0D})"

definition skip_ws :: "string \<Rightarrow> string" where
  "skip_ws s = dropWhile is_json_ws s"

definition hex_value :: "char \<Rightarrow> nat" where
  "hex_value c =
     (if is_digit c then of_char c - 48
      else if in_range (CHR ''a'') (CHR ''f'') c then of_char c - 87
      else of_char c - 55)"

fun parse_string_body :: "string \<Rightarrow> (string \<times> string) option" where
  "parse_string_body [] = None"
| "parse_string_body (c # r) =
     (if c = CHR 0x22 then Some ([], r)
      else if c = CHR 0x5C then
        (case r of
           [] \<Rightarrow> None
         | e # r' \<Rightarrow>
             if e = CHR ''u'' then
               (case r' of
                  a # b # c' # d # r'' \<Rightarrow>
                    if is_hex a \<and> is_hex b \<and> is_hex c' \<and> is_hex d
                    then map_option
                           (\<lambda>(s, t). (char_of (((hex_value a * 16 + hex_value b) * 16
                                                   + hex_value c') * 16 + hex_value d) # s, t))
                           (parse_string_body r'')
                    else None
                | _ \<Rightarrow> None)
             else
               (case map_of [(CHR 0x22, CHR 0x22), (CHR 0x5C, CHR 0x5C), (CHR ''/'', CHR ''/''),
                             (CHR ''b'', CHR 0x08), (CHR ''f'', CHR 0x0C), (CHR ''n'', CHR 0x0A),
                             (CHR ''r'', CHR 0x0D), (CHR ''t'', CHR 0x09)] e of
                  None \<Rightarrow> None
                | Some x \<Rightarrow> map_option (\<lambda>(s, t). (x # s, t)) (parse_string_body r')))
      else if (of_char c :: nat) < 32 then None
      else map_option (\<lambda>(s, t). (c # s, t)) (parse_string_body r))"

definition take_digits :: "string \<Rightarrow> string \<times> string" where
  "take_digits s = (takeWhile is_digit s, dropWhile is_digit s)"

definition parse_number :: "string \<Rightarrow> (string \<times> string) option" where
  \<comment> \<open>\<open>-? (0 | [1-9][0-9]*) (. [0-9]+)? ([eE] [+-]? [0-9]+)?\<close>: the literal and the rest\<close>
  "parse_number s =
     (let (sign, s1) = (case s of c # r \<Rightarrow> if c = CHR ''-'' then (''-'', r) else ([], s) | [] \<Rightarrow> ([], s));
          (ds, after_digits) = take_digits s1
      in if ds = [] then None
         else
           let (int_part, s2) = (if hd ds = CHR ''0'' then (''0'', tl ds @ after_digits)
                                 else (ds, after_digits));
               frac = (case s2 of
                         c # r \<Rightarrow> if c = CHR ''.'' then
                                    (let (fs, s3) = take_digits r
                                     in if fs = [] then None else Some (''.'' @ fs, s3))
                                  else Some ([], s2)
                       | [] \<Rightarrow> Some ([], s2))
           in case frac of
                None \<Rightarrow> None
              | Some (frac_part, s3) \<Rightarrow>
                  (case s3 of
                     c # r \<Rightarrow>
                       if c = CHR ''e'' \<or> c = CHR ''E'' then
                         (let (esign, r1) = (case r of x # r' \<Rightarrow>
                                               if x = CHR ''+'' \<or> x = CHR ''-'' then ([x], r') else ([], r)
                                             | [] \<Rightarrow> ([], r));
                              (es, s4) = take_digits r1
                          in if es = [] then None
                             else Some (sign @ int_part @ frac_part @ [c] @ esign @ es, s4))
                       else Some (sign @ int_part @ frac_part, s3)
                   | [] \<Rightarrow> Some (sign @ int_part @ frac_part, s3)))"

definition set_member :: "string \<Rightarrow> json \<Rightarrow> (string \<times> json) list \<Rightarrow> (string \<times> json) list" where
  \<comment> \<open>assigning a property: in place when the key is there, at the end otherwise\<close>
  "set_member k v ms' =
     (if k \<in> fst ` set ms' then map (\<lambda>(k', v'). if k' = k then (k', v) else (k', v')) ms'
      else ms' @ [(k, v)])"

text \<open>
  The parser proper, by recursive descent. The first argument bounds the number of
  nested calls; \<open>JSON_parse\<close> starts it with more than the text can need (every call but
  the first of a list or an object follows a consumed character).
\<close>

fun parse_value :: "nat \<Rightarrow> string \<Rightarrow> (json \<times> string) option"
  and parse_elements :: "nat \<Rightarrow> json list \<Rightarrow> string \<Rightarrow> (json \<times> string) option"
  and parse_members :: "nat \<Rightarrow> (string \<times> json) list \<Rightarrow> string \<Rightarrow> (json \<times> string) option"
where
  "parse_value 0 s = None"
| "parse_value (Suc n) s =
     (case skip_ws s of
        [] \<Rightarrow> None
      | c # r \<Rightarrow>
          if c = CHR ''{'' then
            (case skip_ws r of
               [] \<Rightarrow> None
             | c' # r' \<Rightarrow> if c' = CHR ''}'' then Some (JObject [], r') else parse_members n [] (c' # r'))
          else if c = CHR ''['' then
            (case skip_ws r of
               [] \<Rightarrow> None
             | c' # r' \<Rightarrow> if c' = CHR '']'' then Some (JArray [], r') else parse_elements n [] (c' # r'))
          else if c = CHR 0x22 then
            map_option (\<lambda>(str, t). (JString str, t)) (parse_string_body r)
          else if prefix ''true'' (c # r) then Some (JBool True, drop 4 (c # r))
          else if prefix ''false'' (c # r) then Some (JBool False, drop 5 (c # r))
          else if prefix ''null'' (c # r) then Some (JNull, drop 4 (c # r))
          else map_option (\<lambda>(num, t). (JNumber num, t)) (parse_number (c # r)))"
| "parse_elements 0 acc s = None"
| "parse_elements (Suc n) acc s =
     (case parse_value n s of
        None \<Rightarrow> None
      | Some (v, t) \<Rightarrow>
          (case skip_ws t of
             [] \<Rightarrow> None
           | c # r \<Rightarrow>
               if c = CHR '','' then parse_elements n (acc @ [v]) r
               else if c = CHR '']'' then Some (JArray (acc @ [v]), r)
               else None))"
| "parse_members 0 acc s = None"
| "parse_members (Suc n) acc s =
     (case skip_ws s of
        [] \<Rightarrow> None
      | q # r \<Rightarrow>
          if q \<noteq> CHR 0x22 then None
          else
            (case parse_string_body r of
               None \<Rightarrow> None
             | Some (k, t) \<Rightarrow>
                 (case skip_ws t of
                    [] \<Rightarrow> None
                  | colon # t' \<Rightarrow>
                      if colon \<noteq> CHR '':'' then None
                      else
                        (case parse_value n t' of
                           None \<Rightarrow> None
                         | Some (v, u) \<Rightarrow>
                             (case skip_ws u of
                                [] \<Rightarrow> None
                              | c # u' \<Rightarrow>
                                  if c = CHR '','' then parse_members n (set_member k v acc) u'
                                  else if c = CHR ''}'' then Some (JObject (set_member k v acc), u')
                                  else None)))))"

definition JSON_parse :: "string \<Rightarrow> json option" where
  "JSON_parse s =
     (case parse_value (2 * length s + 2) s of
        None \<Rightarrow> None
      | Some (v, t) \<Rightarrow> if skip_ws t = [] then Some v else None)"

definition isArray :: "json \<Rightarrow> bool" where
  "isArray v = (case v of JArray _ \<Rightarrow> True | _ \<Rightarrow> False)"

subsection \<open>\<open>parseJsonWithResilience\<close>\<close>

fun lastIndexOf :: "string \<Rightarrow> string \<Rightarrow> nat option" where
  \<comment> \<open>the position of the last occurrence; \<open>None\<close> is \<open>-1\<close>\<close>
  "lastIndexOf [] sub = (if sub = [] then Some 0 else None)"
| "lastIndexOf (c # cs) sub =
     (case lastIndexOf cs sub of
        Some i \<Rightarrow> Some (Suc i)
      | None \<Rightarrow> if prefix sub (c # cs) then Some 0 else None)"

definition objectSpan :: regex where
  \<comment> \<open>\<open>/\{[\s\S]*\}/\<close>\<close>
  "objectSpan = seqs [chr CHR ''{'', star any_char, chr CHR ''}'']"

definition arraySpan :: regex where
  \<comment> \<open>\<open>/\[[\s\S]*\]/\<close>\<close>
  "arraySpan = seqs [chr CHR ''['', star any_char, chr CHR '']'']"

definition stripThinking :: "string \<Rightarrow> string" where
  "stripThinking s =
     (if str_includes s ''<think>'' \<and> str_includes s ''</think>''
      then (case lastIndexOf s ''</think>'' of
              Some thinkEnd \<Rightarrow> trim (drop (thinkEnd + 8) s)
            | None \<Rightarrow> s)
      else s)"

definition parseJsonWithResilience :: "string \<Rightarrow> thrown + json" where
  "parseJsonWithResilience s =
     (case JSON_parse s of
        Some v \<Rightarrow> Inr v
      | None \<Rightarrow>
          (let cleanText = stripThinking s;
               fromObject =
                 (case str_match objectSpan no_flags cleanText of
                    None \<Rightarrow> None
                  | Some (jsonText, g) \<Rightarrow> JSON_parse (cleanJsonText jsonText))
           in case fromObject of
                Some v \<Rightarrow> Inr v
              | None \<Rightarrow>
                  (let fromArray =
                         (case str_match arraySpan no_flags cleanText of
                            None \<Rightarrow> None
                          | Some (arrayText, g) \<Rightarrow> JSON_parse (cleanJsonText arrayText))
                   in case fromArray of
                        Some parsed \<Rightarrow> Inr (if isArray parsed then parsed else JArray [parsed])
                      | None \<Rightarrow> Inl (ErrorObj ''Invalid JSON after all extraction attempts''))))"

section \<open>The issue checks in the words of the specification\<close>

text \<open>
  The specification describes the four checks of \<open>detectResponseIssues\<close> in words. The
  definitions below follow those words, to be compared with the function above, which
  follows the source.

  \<open>copies w n s tail\<close>: the text \<open>s\<close> consists of \<open>n\<close> further copies of the word \<open>w\<close>,
  each preceded by at least one whitespace character and equal to \<open>w\<close> up to the case of
  its letters, followed by \<open>tail\<close>.
\<close>

fun copies :: "string \<Rightarrow> nat \<Rightarrow> string \<Rightarrow> string \<Rightarrow> bool" where
  "copies w 0 s tail = (s = tail)"
| "copies w (Suc n) s tail =
     (\<exists>sp w' r. s = sp @ w' @ r \<and> sp \<noteq> [] \<and> (\<forall>c\<in>set sp. is_space c)
        \<and> map upper_char w' = map upper_char w \<and> copies w n r tail)"

definition word_token_repeated :: "string \<Rightarrow> bool" where
  \<comment> \<open>the first check as the specification words it: a word token (a maximal run of word
      characters) occurs six or more times in a row, separated by whitespace only\<close>
  "word_token_repeated s =
     (\<exists>pre w mid tail n. s = pre @ w @ mid \<and> w \<noteq> [] \<and> (\<forall>c\<in>set w. is_word c)
        \<and> (pre = [] \<or> \<not> is_word (last pre))
        \<and> 5 \<le> n \<and> copies w n mid tail
        \<and> (tail = [] \<or> \<not> is_word (hd tail)))"

definition word_repeated_as_prefix :: "string \<Rightarrow> bool" where
  \<comment> \<open>the first check as the source has it: the same, except that the last copy need
      not end where a word ends (it may be the beginning of a longer word)\<close>
  "word_repeated_as_prefix s =
     (\<exists>pre w mid tail n. s = pre @ w @ mid \<and> w \<noteq> [] \<and> (\<forall>c\<in>set w. is_word c)
        \<and> (pre = [] \<or> \<not> is_word (last pre))
        \<and> 5 \<le> n \<and> copies w n mid tail)"

definition abrupt_ending :: "string \<Rightarrow> bool" where
  \<comment> \<open>longer than 100 characters, and the trimmed text does not end in \<open>.\<close>, \<open>!\<close> or \<open>?\<close>\<close>
  "abrupt_ending s =
     (length s > 100 \<and> \<not> (trim s \<noteq> [] \<and> last (trim s) \<in> {CHR ''.'', CHR ''!'', CHR ''?''}))"

definition contains :: "string \<Rightarrow> string \<Rightarrow> bool" where
  "contains s sub = (\<exists>pre post. s = pre @ sub @ post)"

definition incomplete_json :: "string \<Rightarrow> bool" where
  "incomplete_json s = (CHR ''{'' \<in> set s \<and> CHR ''}'' \<notin> set s)"

definition unclosed_thinking :: "string \<Rightarrow> bool" where
  "unclosed_thinking s = (contains s ''<think>'' \<and> \<not> contains s ''</think>'')"

definition first_issue :: "bool \<Rightarrow> string \<Rightarrow> CompletionIssue" where
  \<comment> \<open>the four checks in their fixed order, the first that holds deciding the reason;
      the flag says which of the two readings of the first check is taken\<close>
  "first_issue whole_tokens s =
     (if (if whole_tokens then word_token_repeated s else word_repeated_as_prefix s)
      then \<lparr>hasIssue = True, reason = ''Repetitive loop detected''\<rparr>
      else if abrupt_ending s
      then \<lparr>hasIssue = True, reason = ''Abrupt ending without punctuation''\<rparr>
      else if incomplete_json s
      then \<lparr>hasIssue = True, reason = ''Incomplete JSON structure''\<rparr>
      else if unclosed_thinking s
      then \<lparr>hasIssue = True, reason = ''Unclosed thinking tags''\<rparr>
      else \<lparr>hasIssue = False, reason = ''''\<rparr>)"

text \<open>
  \<open>reach m n st st'\<close>: \<open>n\<close> successive matches of \<open>m\<close> lead from \<open>st\<close> to \<open>st'\<close>.
\<close>

fun reach :: "(mstate \<Rightarrow> mstate list) \<Rightarrow> nat \<Rightarrow> mstate \<Rightarrow> mstate \<Rightarrow> bool" where
  "reach m 0 st st' = (st' = st)"
| "reach m (Suc n) st st' = (\<exists>s1\<in>set (m st). reach m n s1 st')"

text \<open>The character before a position: the last one of the text before it, if any.\<close>

definition before :: "char option \<Rightarrow> string \<Rightarrow> char option" where
  "before p pre = (if pre = [] then p else Some (last pre))"


text \<open>A word boundary at a position, as \<open>\b\<close> tests it.\<close>

definition boundary :: "mstate \<Rightarrow> bool" where
  "boundary st = ((case prev st of None \<Rightarrow> False | Some c \<Rightarrow> is_word c)
                  \<noteq> (case rest st of [] \<Rightarrow> False | c # _ \<Rightarrow> is_word c))"


text \<open>The repeated part \<open>\s+\1\<close> of the loop pattern.\<close>

abbreviation (input) further_copy :: regex where
  "further_copy \<equiv> Seq (plus space) (Bref 1)"

text \<open>The text that reaches the brace-closing step of \<open>fixArrayElementSeparation\<close>: the
  function's first seven replacements, as it applies them.\<close>

definition before_closing :: "string \<Rightarrow> string" where
  \<comment> \<open>Fix 1 to Fix 6, copied from \<open>fixArrayElementSeparation\<close>\<close>
  "before_closing s =
     (let fixed = s;
          fixed = replace_all adjacentObjects no_flags (\<lambda>m g. ''},{'') fixed;
          fixed = replace_all adjacentStrings no_flags
                    (\<lambda>m g. [dquote] @ '', '' @ quoted (g 1)) fixed;
          fixed = replace_all spaceBeforeBracket no_flags (\<lambda>m g. g 1 @ '']'') fixed;
          fixed = replace_all incompleteObject no_flags
                    (\<lambda>m g. ''{'' @ quoted (g 1) @ '': '' @ quoted (g 2) @ ''}'') fixed;
          fixed = replace_all truncatedEllipsis no_flags (\<lambda>m g. '': '' @ quoted (g 1)) fixed;
          fixed = replace_all truncatedString flag_m (\<lambda>m g. '': '' @ quoted (g 1)) fixed;
          fixed = replace_all (unescapedQuotes [dquote]) no_flags (escapeInnerQuotes [dquote]) fixed
      in fixed)"

section \<open>Properties of the completion controller\<close>

lemma trim_blank: "\<forall>c\<in>set s. is_space c \<Longrightarrow> trim s = []"
  by (auto simp: trim_def dest: set_dropWhileD)

lemma race_timeout:
  "\<not> settles_within tmo out \<Longrightarrow> race tmo out = Inl (ErrorObj ''Response timeout'')"
  by (cases out) (auto simp: settles_within_def race_def)

lemma timeout_msg:
  "str_includes ''Response timeout'' ''timeout''"
  "\<not> str_includes ''Response timeout'' ''Invalid JSON response''"
  "\<not> str_includes ''Response timeout'' ''Ollama API rejected response''"
  "\<not> str_includes ''Response timeout'' (''done'' @ [CHR 0x22] @ '': false'')"
  by simp_all

text \<open>
  One attempt that fails with an \<open>Error\<close> whose message names a timeout and none of the
  other recoverable conditions: the next attempt runs on the shortened prompt after one
  second, unless the attempts are used up.
\<close>

lemma timeout_error_step:
  assumes "generateFn s prompt = (out, s')"
    and "race (or_default (timeout options) RESPONSE_TIMEOUT) out = Inl (ErrorObj m)"
    and "str_includes m ''timeout''"
    and "\<not> str_includes m ''Invalid JSON response''"
    and "\<not> str_includes m ''Ollama API rejected response''"
    and "\<not> str_includes m (''done'' @ [CHR 0x22] @ '': false'')"
  shows "generateWithCompletion generateFn prompt options attempt (s, tr) =
           (if attempt < or_default (maxRetries options) MAX_RETRIES
            then generateWithCompletion generateFn (shorterPrompt prompt) options (attempt + 1)
                   (s', tr @ [Called prompt, Waited 1000])
            else (Inl (ErrorObj m), (s', tr @ [Called prompt])))"
  using assms
  by (subst generateWithCompletion.simps) (simp add: Let_def wait_def del: str_includes.simps)

text \<open>Once the attempts are used up, one call of the capability decides the result.\<close>

lemma exhausted:
  assumes "\<not> a < or_default (maxRetries options) MAX_RETRIES"
  shows "generateWithCompletion g p options a w =
     (case g (fst w) p of
        (out, s1) \<Rightarrow>
          (case race (or_default (timeout options) RESPONSE_TIMEOUT) out of
             Inl e \<Rightarrow> (Inl e, (s1, snd w @ [Called p]))
           | Inr text \<Rightarrow>
               if text = [] \<or> trim text = []
               then (Inl (ErrorObj ''Model returned empty response''), (s1, snd w @ [Called p]))
               else (Inr text, (s1, snd w @ [Called p]))))"
  using assms
  by (subst generateWithCompletion.simps)
     (simp add: Let_def del: str_includes.simps split: prod.splits sum.splits thrown.splits)

text \<open>The controller reads its options only through the three \<open>||\<close> defaults.\<close>

lemma options_cong:
  assumes "or_default (maxRetries o1) MAX_RETRIES = or_default (maxRetries o2) MAX_RETRIES"
    and "or_default (timeout o1) RESPONSE_TIMEOUT = or_default (timeout o2) RESPONSE_TIMEOUT"
    and "or_default_str (continuationPrompt o1) CONTINUATION_PROMPT
           = or_default_str (continuationPrompt o2) CONTINUATION_PROMPT"
  shows "generateWithCompletion g p o1 a w = generateWithCompletion g p o2 a w"
proof (induction "nat (or_default (maxRetries o1) MAX_RETRIES - a)" arbitrary: p a w rule: less_induct)
  case less
  have IH: "\<And>p' w'. a < or_default (maxRetries o1) MAX_RETRIES \<Longrightarrow>
     generateWithCompletion g p' o1 (a + 1) w' = generateWithCompletion g p' o2 (a + 1) w'"
    by (rule less) simp
  show ?case
  proof (cases "a < or_default (maxRetries o1) MAX_RETRIES")
    case True
    note R = IH[OF True]
    show ?thesis
      apply (subst generateWithCompletion.simps[of g p o1 a w])
      apply (subst generateWithCompletion.simps[of g p o2 a w])
      apply (simp only: R assms)
      done
  next
    case False
    then show ?thesis
      using assms by (simp add: exhausted)
  qed
qed

section \<open>Facts about the matcher\<close>

lemma rest_step: "rest (step st) = tl (rest st)"
  by (simp add: step_def split: list.splits)

lemma rest_advance: "rest (advance n st) = drop n (rest st)"
  by (induction n arbitrary: st) (simp_all add: rest_step drop_Suc tl_drop)

lemma caps_step: "caps (step st) = caps st"
  by (simp add: step_def split: list.splits)

lemma caps_advance: "caps (advance n st) = caps st"
  by (induction n arbitrary: st) (simp_all add: caps_step)

lemma advance_Suc: "advance (Suc n) st = advance n (step st)"
  by simp

lemma ms_Cls:
  "ms (Cls neg P) fl st =
     (if rest st \<noteq> [] \<and> cls_match fl neg P (hd (rest st)) then [step st] else [])"
  by (simp split: list.splits)

text \<open>Repeating a one-character class: any number of characters of the class, from
  the minimum up to the length of the run the input starts with.\<close>

lemma rep_cls_set:
  "set (rep (ms (Cls neg P) fl) g mn None st) =
     {advance n st | n. mn \<le> n \<and> n \<le> length (takeWhile (cls_match fl neg P) (rest st))}"
proof (induction "length (rest st)" arbitrary: st mn)
  case 0
  then have e: "rest st = []" by simp
  show ?case
    by (subst rep.simps) (auto simp: e ms_Cls Let_def simp del: ms.simps)
next
  case (Suc k)
  then obtain c cs where r: "rest st = c # cs" by (cases "rest st") auto
  have k: "k = length (rest (step st))" using Suc.hyps(2) r by (simp add: rest_step)
  note IH = Suc.hyps(1)[OF k]
  show ?case
  proof (cases "cls_match fl neg P c")
    case False
    then show ?thesis
      by (subst rep.simps) (auto simp: r ms_Cls Let_def simp del: ms.simps)
  next
    case True
    have rs: "rest (step st) = cs" by (simp add: rest_step r)
    have "set (rep (ms (Cls neg P) fl) g mn None st) =
            set (rep (ms (Cls neg P) fl) g (mn - 1) None (step st)) \<union> (if 0 < mn then {} else {st})"
      by (subst rep.simps) (auto simp: r rs True ms_Cls Let_def simp del: ms.simps)
    also have "\<dots> = {advance n (step st) | n. mn - 1 \<le> n \<and> n \<le> length (takeWhile (cls_match fl neg P) cs)}
                  \<union> (if 0 < mn then {} else {st})"
      by (simp add: IH rs)
    also have "\<dots> = {advance n st | n. mn \<le> n \<and> n \<le> Suc (length (takeWhile (cls_match fl neg P) cs))}"
    proof (rule set_eqI, rule iffI)
      fix x assume "x \<in> {advance n (step st) | n. mn - 1 \<le> n \<and> n \<le> length (takeWhile (cls_match fl neg P) cs)}
                  \<union> (if 0 < mn then {} else {st})"
      then show "x \<in> {advance n st | n. mn \<le> n \<and> n \<le> Suc (length (takeWhile (cls_match fl neg P) cs))}"
      proof
        assume "x \<in> {advance n (step st) | n. mn - 1 \<le> n \<and> n \<le> length (takeWhile (cls_match fl neg P) cs)}"
        then obtain n where "x = advance (Suc n) st" "mn - 1 \<le> n" "n \<le> length (takeWhile (cls_match fl neg P) cs)"
          by auto
        then show ?thesis by (intro CollectI exI[of _ "Suc n"]) auto
      next
        assume "x \<in> (if 0 < mn then {} else {st})"
        then have "x = advance 0 st" "mn = 0" by (auto split: if_splits)
        then show ?thesis by (intro CollectI exI[of _ 0]) auto
      qed
    next
      fix x assume "x \<in> {advance n st | n. mn \<le> n \<and> n \<le> Suc (length (takeWhile (cls_match fl neg P) cs))}"
      then obtain n where n: "x = advance n st" "mn \<le> n" "n \<le> Suc (length (takeWhile (cls_match fl neg P) cs))"
        by auto
      show "x \<in> {advance n (step st) | n. mn - 1 \<le> n \<and> n \<le> length (takeWhile (cls_match fl neg P) cs)}
                  \<union> (if 0 < mn then {} else {st})"
      proof (cases n)
        case 0
        then show ?thesis using n by auto
      next
        case (Suc m)
        then have "x = advance m (step st)" "mn - 1 \<le> m" "m \<le> length (takeWhile (cls_match fl neg P) cs)"
          using n by auto
        then show ?thesis by blast
      qed
    qed
    finally show ?thesis by (simp add: r True)
  qed
qed

lemma cls_match_no_flags [simp]: "cls_match no_flags False P c = P c"
  by (simp add: cls_match_def no_flags_def)

lemma ms_plus_cls_set:
  "set (ms (plus (Cls neg P)) fl st) =
     {advance n st | n. 1 \<le> n \<and> n \<le> length (takeWhile (cls_match fl neg P) (rest st))}"
  unfolding plus_def by (simp add: rep_cls_set del: ms.simps(1))

lemma ms_plus_space_empty:
  assumes "ms (plus space) no_flags st = []" and "rest st = c # cs"
  shows "\<not> is_space c"
proof
  assume "is_space c"
  then have "1 \<le> length (takeWhile (cls_match no_flags False is_space) (rest st))"
    using assms(2) by simp
  then have "advance 1 st \<in> set (ms (plus space) no_flags st)"
    unfolding space_def ms_plus_cls_set by blast
  then show False using assms(1) by simp
qed

lemma ms_plus_space_progress:
  assumes "ms (plus space) no_flags st = st' # xs"
  shows "length (rest st') < length (rest st)"
proof -
  have "st' \<in> set (ms (plus space) no_flags st)" using assms by simp
  then obtain n where n: "st' = advance n st" "1 \<le> n"
      "n \<le> length (takeWhile (cls_match no_flags False is_space) (rest st))"
    unfolding space_def ms_plus_cls_set by blast
  have "length (takeWhile (cls_match no_flags False is_space) (rest st)) \<le> length (rest st)"
    by (rule length_takeWhile_le)
  then show ?thesis using n by (simp add: rest_advance)
qed

lemma split_loop_no_space:
  assumes "\<forall>c\<in>set piece. \<not> is_space c"
  shows "\<forall>w\<in>set (split_loop (plus space) no_flags piece st). \<forall>c\<in>set w. \<not> is_space c"
  using assms
proof (induction "length (rest st)" arbitrary: piece st rule: less_induct)
  case less
  show ?case
  proof (cases "rest st")
    case Nil
    then show ?thesis using less.prems by (subst split_loop.simps) simp
  next
    case (Cons c cs)
    have rs: "rest (st\<lparr>caps := []\<rparr>) = c # cs" using Cons by simp
    show ?thesis
    proof (cases "ms (plus space) no_flags (st\<lparr>caps := []\<rparr>)")
      case Nil
      have nc: "\<not> is_space c" by (rule ms_plus_space_empty[OF Nil rs])
      have "\<forall>w\<in>set (split_loop (plus space) no_flags (piece @ [c]) (step st)). \<forall>c\<in>set w. \<not> is_space c"
        by (rule less.hyps) (use Cons nc less.prems in \<open>auto simp: rest_step\<close>)
      then show ?thesis
        by (subst split_loop.simps) (simp add: Cons Nil del: ms.simps)
    next
      case (Cons st' xs)
      have pr: "length (rest st') < length (rest st)"
        using ms_plus_space_progress[OF Cons] by simp
      have "\<forall>w\<in>set (split_loop (plus space) no_flags [] st'). \<forall>c\<in>set w. \<not> is_space c"
        by (rule less.hyps[OF pr]) simp
      then show ?thesis
        using less.prems pr
        by (subst split_loop.simps) (simp add: \<open>rest st = c # cs\<close> Cons del: ms.simps)
    qed
  qed
qed

lemma split_no_space:
  "\<forall>w\<in>set (split (plus space) no_flags s). \<forall>c\<in>set w. \<not> is_space c"
  using split_loop_no_space[of "[]" "init s"]
  by (auto simp: split_def simp del: ms.simps)

section \<open>Properties of the partial-response merge\<close>

lemma char_of_small_blank:
  assumes "char_of (k::nat) = CHR '' ''" and "k < 256" shows "k = 32"
proof -
  have "(of_char (char_of k :: char) :: nat) = of_char CHR '' ''"
    by (simp only: assms(1))
  then have "k mod 256 = (32::nat)"
    by (simp only: of_char_of) simp
  then show ?thesis using assms(2) by (simp only: mod_less)
qed

lemma lower_char_blank: "(lower_char c = CHR '' '') = (c = CHR '' '')"
proof (cases "is_upper_az c \<or> is_latin1_upper c")
  case False
  then show ?thesis by (simp add: lower_char_def)
next
  case True
  then have b: "(65::nat) \<le> of_char c" "(of_char c :: nat) \<le> 222"
    by (auto simp: is_upper_az_def is_latin1_upper_def in_range_def)
  have "lower_char c \<noteq> CHR '' ''"
  proof
    assume "lower_char c = CHR '' ''"
    then have "char_of (of_char c + (32::nat)) = CHR '' ''" using True by (simp add: lower_char_def)
    from char_of_small_blank[OF this] b show False by simp
  qed
  moreover have "c \<noteq> CHR '' ''" using b by auto
  ultimately show ?thesis by simp
qed

lemma toLowerCase_join:
  "toLowerCase (join '' '' xs) = join '' '' (map toLowerCase xs)"
proof (cases xs)
  case Nil then show ?thesis by (simp add: join_def toLowerCase_def)
next
  case (Cons y ys)
  have "lower_char CHR '' '' = CHR '' ''" using lower_char_blank[of "CHR '' ''"] by simp
  then have "map lower_char (concat (map ((@) '' '') ys)) = concat (map (\<lambda>x. '' '' @ map lower_char x) ys)"
    by (induction ys) simp_all
  then show ?thesis by (simp add: Cons join_def toLowerCase_def[abs_def] comp_def)
qed

lemma append_sep_inj:
  assumes "a \<notin> set xs" "a \<notin> set ys" "xs @ a # r1 = ys @ a # r2"
  shows "xs = ys \<and> r1 = r2"
  using assms
proof (induction xs arbitrary: ys)
  case Nil
  then show ?case by (cases ys) auto
next
  case (Cons x xs)
  then show ?case by (cases ys) auto
qed

lemma join_Cons2: "join sep (x # y # ys) = x @ sep @ join sep (y # ys)"
  by (simp add: join_def)

lemma join_blank_inj:
  assumes "length xs = length ys"
    and "\<forall>w\<in>set xs. CHR '' '' \<notin> set w" and "\<forall>w\<in>set ys. CHR '' '' \<notin> set w"
    and "join '' '' xs = join '' '' ys"
  shows "xs = ys"
  using assms
proof (induction xs ys rule: list_induct2)
  case Nil
  then show ?case by simp
next
  case (Cons x xs y ys)
  note nx = Cons.prems(1) and ny = Cons.prems(2) and je = Cons.prems(3)
  show ?case
  proof (cases xs)
    case Nil
    then have "ys = []" using Cons.hyps by simp
    then show ?thesis using je Nil by (simp add: join_def)
  next
    case xs: (Cons x' xs')
    then obtain y' ys' where ys: "ys = y' # ys'" using Cons.hyps by (cases ys) auto
    have e: "x @ CHR '' '' # join '' '' xs = y @ CHR '' '' # join '' '' ys"
      using je unfolding xs ys join_Cons2 by simp
    have "x = y \<and> join '' '' xs = join '' '' ys"
      by (rule append_sep_inj[OF _ _ e]) (use nx ny in auto)
    then show ?thesis
      using Cons.IH nx ny by simp
  qed
qed

lemma foldl_last_match:
  "foldl (\<lambda>ov i. if P i then i else ov) 0 [1 ..< Suc m] =
     (if {i. 1 \<le> i \<and> i \<le> m \<and> P i} = {} then 0 else Max {i. 1 \<le> i \<and> i \<le> m \<and> P i})"
proof (induction m)
  case 0
  have "{i. 1 \<le> i \<and> i \<le> 0 \<and> P i} = {}" by auto
  then show ?case by simp
next
  case (Suc m)
  let ?S = "\<lambda>m. {i. 1 \<le> i \<and> i \<le> m \<and> P i}"
  let ?f = "\<lambda>ov i. if P i then i else ov"
  have fin: "finite (?S (Suc m))" by simp
  have "[1 ..< Suc (Suc m)] = [1 ..< Suc m] @ [Suc m]" by simp
  then have step: "foldl ?f 0 [1 ..< Suc (Suc m)] =
              (if P (Suc m) then Suc m else foldl ?f 0 [1 ..< Suc m])"
    by (simp only: foldl_append foldl.simps)
  show ?case
  proof (cases "P (Suc m)")
    case True
    have "Max (?S (Suc m)) = Suc m"
      by (rule Max_eqI[OF fin]) (use True in auto)
    moreover have "?S (Suc m) \<noteq> {}" using True by auto
    ultimately show ?thesis using True step by (simp only: if_True if_False)
  next
    case False
    have "?S (Suc m) = ?S m" using False by (auto simp: le_Suc_eq)
    then show ?thesis using False step Suc.IH by (simp only: if_False)
  qed
qed

lemma slice_last_length: "n \<le> length xs \<Longrightarrow> length (slice_last n xs) = n"
  by (simp add: slice_last_def)

lemma no_space_no_blank: "\<not> is_space c \<Longrightarrow> c \<noteq> CHR '' ''"
  by (auto simp: is_space_def)

lemma toLowerCase_no_blank:
  assumes "CHR '' '' \<notin> set w" shows "CHR '' '' \<notin> set (toLowerCase w)"
proof
  assume "CHR '' '' \<in> set (toLowerCase w)"
  then obtain x where "x \<in> set w" "lower_char x = CHR '' ''"
    by (auto simp: toLowerCase_def)
  then show False using assms lower_char_blank[of x] by simp
qed

lemma overlap_test:
  assumes "words1 = split (plus space) no_flags a" "words2 = split (plus space) no_flags b"
    and "i \<le> length words1" "i \<le> length words2"
  shows "(toLowerCase (join '' '' (slice_last i words1)) = toLowerCase (join '' '' (take i words2)))
         = (map toLowerCase (slice_last i words1) = map toLowerCase (take i words2))"
proof -
  have n1: "\<forall>w\<in>set words1. CHR '' '' \<notin> set w"
    using split_no_space[of a] assms(1) no_space_no_blank by blast
  have n2: "\<forall>w\<in>set words2. CHR '' '' \<notin> set w"
    using split_no_space[of b] assms(2) no_space_no_blank by blast
  have s1: "set (slice_last i words1) \<subseteq> set words1"
    by (simp add: slice_last_def set_drop_subset)
  have s2: "set (take i words2) \<subseteq> set words2" by (rule set_take_subset)
  have l1: "\<forall>w\<in>set (map toLowerCase (slice_last i words1)). CHR '' '' \<notin> set w"
    using n1 s1 toLowerCase_no_blank by auto
  have l2: "\<forall>w\<in>set (map toLowerCase (take i words2)). CHR '' '' \<notin> set w"
    using n2 s2 toLowerCase_no_blank by auto
  have len: "length (map toLowerCase (slice_last i words1)) = length (map toLowerCase (take i words2))"
    using assms(3,4) by (simp add: slice_last_length)
  show ?thesis
    unfolding toLowerCase_join
    using join_blank_inj[OF len l1 l2] by auto
qed

section \<open>Character classes\<close>

text \<open>Characters by their codes.\<close>

lemma char_is:
  assumes "(of_char d :: nat) = n" shows "(c = d) = ((of_char c :: nat) = n)"
  using of_char_eq_iff[of c d, where ?'a = nat] assms by (simp only:)

lemma code_upper_char:
  "(of_char (upper_char c) :: nat) =
     (if is_lower_az c \<or> is_latin1_lower c then of_char c - 32 else of_char c)"
proof -
  have "(of_char c :: nat) - 32 < 256"
    using nat_of_char_less_256[of c] by linarith
  then have "((of_char c :: nat) - 32) mod 256 = of_char c - 32"
    by (rule mod_less)
  then show ?thesis by (simp add: upper_char_def)
qed

lemma code_lower_az: "is_lower_az c = (97 \<le> (of_char c :: nat) \<and> (of_char c :: nat) \<le> 122)"
  by (simp add: is_lower_az_def in_range_def)

lemma code_upper_az: "is_upper_az c = (65 \<le> (of_char c :: nat) \<and> (of_char c :: nat) \<le> 90)"
  by (simp add: is_upper_az_def in_range_def)

lemma code_digit: "is_digit c = (48 \<le> (of_char c :: nat) \<and> (of_char c :: nat) \<le> 57)"
  by (simp add: is_digit_def in_range_def)

lemma code_latin1_lower:
  "is_latin1_lower c = (224 \<le> (of_char c :: nat) \<and> (of_char c :: nat) \<le> 254 \<and> (of_char c :: nat) \<noteq> 247)"
proof -
  have u: "(c = CHR 0xF7) = ((of_char c :: nat) = 247)" by (rule char_is) simp
  have r: "in_range (CHR 0xE0) (CHR 0xFE) c = (224 \<le> (of_char c :: nat) \<and> (of_char c :: nat) \<le> 254)"
    by (simp add: in_range_def)
  show ?thesis unfolding is_latin1_lower_def u r by blast
qed

lemma code_latin1_upper:
  "is_latin1_upper c = (192 \<le> (of_char c :: nat) \<and> (of_char c :: nat) \<le> 222 \<and> (of_char c :: nat) \<noteq> 215)"
proof -
  have u: "(c = CHR 0xD7) = ((of_char c :: nat) = 215)" by (rule char_is) simp
  have r: "in_range (CHR 0xC0) (CHR 0xDE) c = (192 \<le> (of_char c :: nat) \<and> (of_char c :: nat) \<le> 222)"
    by (simp add: in_range_def)
  show ?thesis unfolding is_latin1_upper_def u r by blast
qed

lemma code_lower_char:
  "(of_char (lower_char c) :: nat) =
     (if is_upper_az c \<or> is_latin1_upper c then of_char c + 32 else of_char c)"
proof (cases "is_upper_az c \<or> is_latin1_upper c")
  case False
  then show ?thesis by (simp add: lower_char_def)
next
  case True
  then have "(of_char c :: nat) \<le> 222"
    unfolding code_upper_az code_latin1_upper by linarith
  then have "(of_char c :: nat) + 32 < 256" by linarith
  then have "((of_char c :: nat) + 32) mod 256 = of_char c + 32"
    by (rule mod_less)
  then show ?thesis using True by (simp add: lower_char_def)
qed

lemma code_is_word:
  "is_word c = ((97 \<le> (of_char c :: nat) \<and> (of_char c :: nat) \<le> 122)
               \<or> (65 \<le> (of_char c :: nat) \<and> (of_char c :: nat) \<le> 90)
               \<or> (48 \<le> (of_char c :: nat) \<and> (of_char c :: nat) \<le> 57)
               \<or> (of_char c :: nat) = 95)"
proof -
  have u: "(c = CHR ''_'') = ((of_char c :: nat) = 95)" by (rule char_is) simp
  show ?thesis unfolding is_word_def is_alpha_def code_lower_az code_upper_az code_digit u
    by blast
qed

lemma code_is_space:
  "is_space c = ((of_char c :: nat) = 9 \<or> (of_char c :: nat) = 10 \<or> (of_char c :: nat) = 11
                \<or> (of_char c :: nat) = 12 \<or> (of_char c :: nat) = 13 \<or> (of_char c :: nat) = 32
                \<or> (of_char c :: nat) = 160)"
proof -
  have u: "(c = CHR 0x09) = ((of_char c :: nat) = 9)" "(c = CHR 0x0A) = ((of_char c :: nat) = 10)"
    "(c = CHR 0x0B) = ((of_char c :: nat) = 11)" "(c = CHR 0x0C) = ((of_char c :: nat) = 12)"
    "(c = CHR 0x0D) = ((of_char c :: nat) = 13)" "(c = CHR 0x20) = ((of_char c :: nat) = 32)"
    "(c = CHR 0xA0) = ((of_char c :: nat) = 160)"
    by (rule char_is, simp)+
  show ?thesis unfolding is_space_def insert_iff empty_iff u by blast
qed

lemma upper_char_not_word:
  assumes "upper_char c \<noteq> c" and "\<not> is_lower_az c" shows "\<not> is_word (upper_char c)"
proof -
  have l: "is_latin1_lower c" using assms by (auto simp: upper_char_def split: if_splits)
  then have "(of_char (upper_char c) :: nat) = of_char c - 32" by (simp add: code_upper_char)
  moreover have "224 \<le> (of_char c :: nat)" using l unfolding code_latin1_lower by simp
  ultimately have "192 \<le> (of_char (upper_char c) :: nat)" by linarith
  then show ?thesis unfolding code_is_word by linarith
qed

lemma is_word_upper: "is_word (upper_char c) \<Longrightarrow> is_word c"
proof -
  assume a: "is_word (upper_char c)"
  show "is_word c"
  proof (cases "is_lower_az c")
    case True
    then show ?thesis by (simp add: is_word_def is_alpha_def)
  next
    case False
    then have "upper_char c = c" using upper_char_not_word[of c] a by blast
    then show ?thesis using a by simp
  qed
qed

lemma lower_char_not_word:
  assumes "lower_char c \<noteq> c" and "\<not> is_upper_az c" shows "\<not> is_word (lower_char c)"
proof -
  have l: "is_latin1_upper c" using assms by (auto simp: lower_char_def split: if_splits)
  then have "(of_char (lower_char c) :: nat) = of_char c + 32" by (simp add: code_lower_char)
  moreover have "192 \<le> (of_char c :: nat)" using l unfolding code_latin1_upper by simp
  ultimately have "224 \<le> (of_char (lower_char c) :: nat)" by linarith
  then show ?thesis unfolding code_is_word by linarith
qed

lemma is_word_lower: "is_word (lower_char c) \<Longrightarrow> is_word c"
proof -
  assume a: "is_word (lower_char c)"
  show "is_word c"
  proof (cases "is_upper_az c")
    case True
    then show ?thesis by (simp add: is_word_def is_alpha_def)
  next
    case False
    then have "lower_char c = c" using lower_char_not_word[of c] a by blast
    then show ?thesis using a by simp
  qed
qed

lemma upper_char_changed_code:
  assumes "upper_char c \<noteq> c"
  shows "(65 \<le> (of_char (upper_char c) :: nat) \<and> (of_char (upper_char c) :: nat) \<le> 90)
         \<or> (192 \<le> (of_char (upper_char c) :: nat) \<and> (of_char (upper_char c) :: nat) \<le> 222)"
proof -
  have l: "is_lower_az c \<or> is_latin1_lower c"
    using assms by (auto simp: upper_char_def split: if_splits)
  then have e: "(of_char (upper_char c) :: nat) = of_char c - 32" by (simp add: code_upper_char)
  from l show ?thesis
  proof
    assume "is_lower_az c"
    then have "97 \<le> (of_char c :: nat) \<and> (of_char c :: nat) \<le> 122" unfolding code_lower_az .
    then show ?thesis using e by linarith
  next
    assume "is_latin1_lower c"
    then have "224 \<le> (of_char c :: nat) \<and> (of_char c :: nat) \<le> 254"
      unfolding code_latin1_lower by simp
    then show ?thesis using e by linarith
  qed
qed

lemma lower_char_changed_code:
  assumes "lower_char c \<noteq> c"
  shows "(97 \<le> (of_char (lower_char c) :: nat) \<and> (of_char (lower_char c) :: nat) \<le> 122)
         \<or> (224 \<le> (of_char (lower_char c) :: nat) \<and> (of_char (lower_char c) :: nat) \<le> 254)"
proof -
  have l: "is_upper_az c \<or> is_latin1_upper c"
    using assms by (auto simp: lower_char_def split: if_splits)
  then have e: "(of_char (lower_char c) :: nat) = of_char c + 32" by (simp add: code_lower_char)
  from l show ?thesis
  proof
    assume "is_upper_az c"
    then have "65 \<le> (of_char c :: nat) \<and> (of_char c :: nat) \<le> 90" unfolding code_upper_az .
    then show ?thesis using e by linarith
  next
    assume "is_latin1_upper c"
    then have "192 \<le> (of_char c :: nat) \<and> (of_char c :: nat) \<le> 222"
      unfolding code_latin1_upper by simp
    then show ?thesis using e by linarith
  qed
qed

lemma is_space_upper: "is_space (upper_char c) \<Longrightarrow> is_space c"
proof -
  assume a: "is_space (upper_char c)"
  have "upper_char c = c"
  proof (rule ccontr)
    assume "upper_char c \<noteq> c"
    from upper_char_changed_code[OF this] have "\<not> is_space (upper_char c)"
      unfolding code_is_space by linarith
    then show False using a by simp
  qed
  then show "is_space c" using a by simp
qed

lemma is_space_lower: "is_space (lower_char c) \<Longrightarrow> is_space c"
proof -
  assume a: "is_space (lower_char c)"
  have "lower_char c = c"
  proof (rule ccontr)
    assume "lower_char c \<noteq> c"
    from lower_char_changed_code[OF this] have "\<not> is_space (lower_char c)"
      unfolding code_is_space by linarith
    then show False using a by simp
  qed
  then show "is_space c" using a by simp
qed

lemma is_word_upper_of_word: "is_word c \<Longrightarrow> is_word (upper_char c)"
proof -
  assume a: "is_word c"
  show "is_word (upper_char c)"
  proof (cases "upper_char c = c")
    case True
    then show ?thesis using a by simp
  next
    case False
    have "\<not> is_latin1_lower c" using a unfolding code_is_word code_latin1_lower by linarith
    then have "is_lower_az c" using False by (auto simp: upper_char_def split: if_splits)
    then have "97 \<le> (of_char c :: nat) \<and> (of_char c :: nat) \<le> 122" unfolding code_lower_az .
    moreover have "(of_char (upper_char c) :: nat) = of_char c - 32"
      using \<open>is_lower_az c\<close> by (simp add: code_upper_char)
    ultimately show ?thesis unfolding code_is_word by linarith
  qed
qed

lemma same_upper_word:
  assumes "upper_char c' = upper_char c" and "is_word c" shows "is_word c'"
  using is_word_upper[of c'] is_word_upper_of_word[OF assms(2)] assms(1) by simp

lemma space_not_word: "is_space c \<Longrightarrow> \<not> is_word c"
  unfolding code_is_space code_is_word by linarith

lemma cls_match_i_word [simp]: "cls_match flag_i False is_word c = is_word c"
proof -
  have "(is_word c \<or> is_word (upper_char c) \<or> is_word (lower_char c)) = is_word c"
    using is_word_upper[of c] is_word_lower[of c] by blast
  then show ?thesis by (simp add: cls_match_def flag_i_def)
qed

lemma cls_match_i_space [simp]: "cls_match flag_i False is_space c = is_space c"
proof -
  have "(is_space c \<or> is_space (upper_char c) \<or> is_space (lower_char c)) = is_space c"
    using is_space_upper[of c] is_space_lower[of c] by blast
  then show ?thesis by (simp add: cls_match_def flag_i_def)
qed

lemma prev_step: "rest st = c # cs \<Longrightarrow> prev (step st) = Some c"
  by (simp add: step_def)

lemma advance_add: "advance (a + b) st = advance b (advance a st)"
  by (induction a arbitrary: st) simp_all

lemma prev_advance:
  "1 \<le> n \<Longrightarrow> n \<le> length (rest st) \<Longrightarrow> prev (advance n st) = Some (rest st ! (n - 1))"
proof (induction n arbitrary: st)
  case 0
  then show ?case by simp
next
  case (Suc n)
  then obtain c cs where r: "rest st = c # cs" by (cases "rest st") auto
  show ?case
  proof (cases n)
    case 0
    then show ?thesis using r by (simp add: prev_step)
  next
    case (Suc k)
    have "prev (advance n (step st)) = Some (rest (step st) ! (n - 1))"
      by (rule Suc.IH) (use Suc Suc.prems r in \<open>simp_all add: rest_step\<close>)
    then show ?thesis using r Suc by (simp add: rest_step)
  qed
qed

text \<open>Repetition of a matcher that always consumes input: the states reached by at
  least the minimum number of successive matches.\<close>

lemma rep_set:
  assumes prog: "\<And>st s1. s1 \<in> set (m st) \<Longrightarrow> length (rest s1) < length (rest st)"
  shows "set (rep m g mn None st) = {st'. \<exists>n\<ge>mn. reach m n st st'}"
proof (induction "mn + length (rest st)" arbitrary: mn st rule: less_induct)
  case less
  have IH: "set (rep m g (mn - 1) None s1) = {st'. \<exists>n\<ge>mn - 1. reach m n s1 st'}"
    if "s1 \<in> set (m st)" for s1
    by (rule less) (use prog[OF that] in arith)
  have flt: "filter (\<lambda>st'. 0 < mn \<or> length (rest st') < length (rest st)) (m st) = m st"
    using prog by (simp add: filter_id_conv)
  have un: "set (rep m g mn None st) =
              (\<Union>s1\<in>set (m st). set (rep m g (mn - 1) None s1)) \<union> (if 0 < mn then {} else {st})"
    by (subst rep.simps) (auto simp: flt Let_def)
  show ?case
  proof (rule set_eqI, rule iffI)
    fix x assume "x \<in> set (rep m g mn None st)"
    then consider s1 where "s1 \<in> set (m st)" "x \<in> set (rep m g (mn - 1) None s1)"
      | "mn = 0" "x = st"
      unfolding un by (auto split: if_splits)
    then show "x \<in> {st'. \<exists>n\<ge>mn. reach m n st st'}"
    proof cases
      case 1
      then obtain n where "mn - 1 \<le> n" "reach m n s1 x" using IH by blast
      then have "mn \<le> Suc n" "reach m (Suc n) st x" using 1(1) by auto
      then show ?thesis by blast
    next
      case 2
      then have "reach m 0 st x" by simp
      then show ?thesis using 2 by blast
    qed
  next
    fix x assume "x \<in> {st'. \<exists>n\<ge>mn. reach m n st st'}"
    then obtain n where n: "mn \<le> n" "reach m n st x" by blast
    show "x \<in> set (rep m g mn None st)"
    proof (cases n)
      case 0
      then show ?thesis using n unfolding un by simp
    next
      case (Suc k)
      then obtain s1 where s1: "s1 \<in> set (m st)" "reach m k s1 x" using n by auto
      have "mn - 1 \<le> k" using n Suc by simp
      then have "x \<in> set (rep m g (mn - 1) None s1)" using IH[OF s1(1)] s1(2) by blast
      then show ?thesis unfolding un using s1(1) by blast
    qed
  qed
qed

text \<open>The leftmost-match search succeeds exactly when the expression matches at some
  position of the input.\<close>

lemma search_from_iff:
  "(search_from r fl p s \<noteq> None) =
     (\<exists>pre post. s = pre @ post \<and> ms r fl (at_pos (before p pre) post) \<noteq> [])"
proof (induction s arbitrary: p)
  case Nil
  then show ?case by (auto simp: before_def split: list.splits)
next
  case (Cons c cs)
  show ?case
  proof (cases "ms r fl (at_pos p (c # cs))")
    case (Cons a list)
    then have "ms r fl (at_pos (before p []) (c # cs)) \<noteq> []" by (simp add: before_def)
    then have "\<exists>pre post. c # cs = pre @ post \<and> ms r fl (at_pos (before p pre) post) \<noteq> []"
      by (intro exI[of _ "[]"] exI[of _ "c # cs"]) simp
    then show ?thesis using Cons by simp
  next
    case Nil
    have "(\<exists>pre post. c # cs = pre @ post \<and> ms r fl (at_pos (before p pre) post) \<noteq> [])
          = (\<exists>pre post. cs = pre @ post \<and> ms r fl (at_pos (before (Some c) pre) post) \<noteq> [])"
    proof
      assume "\<exists>pre post. c # cs = pre @ post \<and> ms r fl (at_pos (before p pre) post) \<noteq> []"
      then obtain pre post where h: "c # cs = pre @ post" "ms r fl (at_pos (before p pre) post) \<noteq> []"
        by blast
      have "pre \<noteq> []" using h Nil by (auto simp: before_def)
      then obtain pre' where p': "pre = c # pre'" using h(1) by (cases pre) auto
      have "before p pre = before (Some c) pre'" by (simp add: before_def p')
      then show "\<exists>pre post. cs = pre @ post \<and> ms r fl (at_pos (before (Some c) pre) post) \<noteq> []"
        using h p' by auto
    next
      assume "\<exists>pre post. cs = pre @ post \<and> ms r fl (at_pos (before (Some c) pre) post) \<noteq> []"
      then obtain pre post where h: "cs = pre @ post" "ms r fl (at_pos (before (Some c) pre) post) \<noteq> []"
        by blast
      have "before p (c # pre) = before (Some c) pre" by (simp add: before_def)
      then show "\<exists>pre post. c # cs = pre @ post \<and> ms r fl (at_pos (before p pre) post) \<noteq> []"
        using h by (intro exI[of _ "c # pre"] exI[of _ post]) simp
    qed
    then show ?thesis using Nil Cons.IH[of "Some c"] by simp
  qed
qed

lemma regex_test_iff:
  "regex_test r fl s =
     (\<exists>pre post. s = pre @ post \<and> ms r fl (at_pos (before None pre) post) \<noteq> [])"
  unfolding regex_test_def regex_exec_def by (rule search_from_iff)

lemma ms_WordB: "ms WordB fl st = (if boundary st then [st] else [])"
  by (simp add: boundary_def)

lemma ms_Seq_set: "set (ms (Seq r1 r2) fl st) = (\<Union>s1\<in>set (ms r1 fl st). set (ms r2 fl s1))"
  by simp

lemma takeWhile_nth: "n < length (takeWhile P xs) \<Longrightarrow> P (xs ! n)"
  by (metis nth_mem set_takeWhileD takeWhile_nth)

lemma boundary_after_word:
  assumes "1 \<le> n" "n \<le> length (takeWhile is_word (rest st))"
  shows "boundary (advance n st) = (n = length (takeWhile is_word (rest st)))"
proof -
  let ?k = "length (takeWhile is_word (rest st))"
  have kl: "?k \<le> length (rest st)" by (rule length_takeWhile_le)
  have "prev (advance n st) = Some (rest st ! (n - 1))"
    by (rule prev_advance) (use assms kl in auto)
  moreover have "is_word (rest st ! (n - 1))"
    by (rule takeWhile_nth) (use assms in auto)
  ultimately have pw: "(case prev (advance n st) of None \<Rightarrow> False | Some c \<Rightarrow> is_word c) = True"
    by simp
  have nw: "(case rest (advance n st) of [] \<Rightarrow> False | c # _ \<Rightarrow> is_word c) = (n < ?k)"
  proof (cases "n < ?k")
    case True
    then have "n < length (rest st)" using kl by simp
    then have "drop n (rest st) = rest st ! n # drop (Suc n) (rest st)"
      by (simp add: Cons_nth_drop_Suc)
    moreover have "is_word (rest st ! n)" by (rule takeWhile_nth[OF True])
    ultimately show ?thesis using True by (simp add: rest_advance)
  next
    case False
    then have "n = ?k" using assms by simp
    then have "drop n (rest st) = dropWhile is_word (rest st)"
      by (simp add: dropWhile_eq_drop)
    moreover have "dropWhile is_word (rest st) = [] \<or> \<not> is_word (hd (dropWhile is_word (rest st)))"
      using hd_dropWhile[of is_word "rest st"] by blast
    ultimately have d: "drop n (rest st) = [] \<or> \<not> is_word (hd (drop n (rest st)))" by simp
    have "(case drop n (rest st) of [] \<Rightarrow> False | c # _ \<Rightarrow> is_word c) = False"
    proof (cases "drop n (rest st)")
      case Nil
      then show ?thesis by simp
    next
      case (Cons x xs)
      then show ?thesis using d by simp
    qed
    then show ?thesis using False by (simp add: rest_advance)
  qed
  show ?thesis unfolding boundary_def pw nw using assms by auto
qed

text \<open>\<open>\b\w+\b\<close> matches exactly the maximal run of word characters that starts at a
  position where a word starts.\<close>

lemma ms_word_token:
  "set (ms (seqs [WordB, plus word, WordB]) flag_i st) =
     (if boundary st \<and> 1 \<le> length (takeWhile is_word (rest st))
      then {advance (length (takeWhile is_word (rest st))) st} else {})"
proof -
  let ?k = "length (takeWhile is_word (rest st))"
  have pw: "set (ms (plus word) flag_i st) = {advance n st | n. 1 \<le> n \<and> n \<le> ?k}"
    unfolding word_def ms_plus_cls_set by (simp add: cls_match_i_word[abs_def])
  have tail: "set (ms (Seq WordB Eps) flag_i s1) = (if boundary s1 then {s1} else {})" for s1
    by (simp add: boundary_def)
  have inner: "set (ms (Seq (plus word) (Seq WordB Eps)) flag_i st)
          = (if 1 \<le> ?k then {advance ?k st} else {})"
  proof -
    have "set (ms (Seq (plus word) (Seq WordB Eps)) flag_i st)
            = (\<Union>s1\<in>{advance n st | n. 1 \<le> n \<and> n \<le> ?k}. if boundary s1 then {s1} else {})"
      by (simp only: ms_Seq_set[of "plus word" "Seq WordB Eps"] pw tail)
    also have "\<dots> = {advance n st | n. 1 \<le> n \<and> n \<le> ?k \<and> boundary (advance n st)}"
      by auto
    also have "\<dots> = {advance n st | n. 1 \<le> n \<and> n \<le> ?k \<and> n = ?k}"
      using boundary_after_word[of _ st] by blast
    also have "\<dots> = (if 1 \<le> ?k then {advance ?k st} else {})" by auto
    finally show ?thesis .
  qed
  have "set (ms (seqs [WordB, plus word, WordB]) flag_i st)
          = (if boundary st then set (ms (Seq (plus word) (Seq WordB Eps)) flag_i st) else {})"
    unfolding seqs_def by (simp add: boundary_def del: ms.simps(5))
  then show ?thesis unfolding inner by auto
qed

lemma same_text_i: "same_text flag_i a b = (map upper_char a = map upper_char b)"
  by (simp add: same_text_def flag_i_def)

lemma ms_Bref_Some:
  assumes "map_of (caps st) 1 = Some w"
  shows "ms (Bref 1) flag_i st =
     (if length w \<le> length (rest st) \<and> map upper_char (take (length w) (rest st)) = map upper_char w
      then [advance (length w) st] else [])"
  using assms by (simp add: same_text_i)

text \<open>One further copy: whitespace, then the captured word up to case.\<close>

lemma ms_body:
  assumes "map_of (caps st) 1 = Some w"
  shows "set (ms (Seq (plus space) (Bref 1)) flag_i st) =
     {advance (n + length w) st | n.
        1 \<le> n \<and> n \<le> length (takeWhile is_space (rest st))
        \<and> length w \<le> length (drop n (rest st))
        \<and> map upper_char (take (length w) (drop n (rest st))) = map upper_char w}"
proof -
  have ps: "set (ms (plus space) flag_i st) = {advance n st | n. 1 \<le> n \<and> n \<le> length (takeWhile is_space (rest st))}"
    unfolding space_def ms_plus_cls_set by (simp add: cls_match_i_space[abs_def])
  have br: "set (ms (Bref 1) flag_i (advance n st)) =
      (if length w \<le> length (drop n (rest st))
          \<and> map upper_char (take (length w) (drop n (rest st))) = map upper_char w
       then {advance (n + length w) st} else {})" for n
  proof -
    have "map_of (caps (advance n st)) 1 = Some w" using assms by (simp add: caps_advance)
    from ms_Bref_Some[OF this] show ?thesis
      by (simp add: rest_advance advance_add del: ms.simps)
  qed
  have "set (ms (Seq (plus space) (Bref 1)) flag_i st)
          = (\<Union>s1\<in>{advance n st | n. 1 \<le> n \<and> n \<le> length (takeWhile is_space (rest st))}.
               set (ms (Bref 1) flag_i s1))"
    by (simp only: ms_Seq_set ps)
  also have "\<dots> = (\<Union>n\<in>{n. 1 \<le> n \<and> n \<le> length (takeWhile is_space (rest st))}.
               set (ms (Bref 1) flag_i (advance n st)))"
    by blast
  also have "\<dots> = {advance (n + length w) st | n.
        1 \<le> n \<and> n \<le> length (takeWhile is_space (rest st))
        \<and> length w \<le> length (drop n (rest st))
        \<and> map upper_char (take (length w) (drop n (rest st))) = map upper_char w}"
    unfolding br by (auto split: if_splits)
  finally show ?thesis .
qed

lemma body_progress:
  assumes "s1 \<in> set (ms (Seq (plus space) (Bref 1)) flag_i st)"
  shows "length (rest s1) < length (rest st)"
proof -
  obtain s0 where s0: "s0 \<in> set (ms (plus space) flag_i st)" "s1 \<in> set (ms (Bref 1) flag_i s0)"
    using assms unfolding ms_Seq_set by blast
  obtain n where n: "s0 = advance n st" "1 \<le> n" "n \<le> length (takeWhile is_space (rest st))"
    using s0(1) unfolding space_def ms_plus_cls_set by (auto simp: cls_match_i_space[abs_def])
  have "length (takeWhile is_space (rest st)) \<le> length (rest st)" by (rule length_takeWhile_le)
  then have a: "length (rest s0) < length (rest st)" using n by (simp add: rest_advance)
  have "length (rest s1) \<le> length (rest s0)"
    using s0(2) by (auto simp: rest_advance split: option.splits if_splits)
  then show ?thesis using a by simp
qed

lemma take_takeWhile_space:
  assumes "n \<le> length (takeWhile P xs)" shows "\<forall>c\<in>set (take n xs). P c"
proof -
  have "take n xs = take n (takeWhile P xs)"
    using assms by (metis takeWhile_dropWhile_id take_append min.absorb2 diff_is_0_eq' append_Nil2 take_0 length_take)
  then show ?thesis by (metis in_set_takeD set_takeWhileD)
qed

lemma reach_copies:
  assumes "reach (ms further_copy flag_i) n st st'" and "map_of (caps st) 1 = Some w"
  shows "copies w n (rest st) (rest st') \<and> caps st' = caps st"
  using assms
proof (induction n arbitrary: st)
  case 0
  then show ?case by simp
next
  case (Suc n)
  from Suc.prems(1) obtain s1 where s1: "s1 \<in> set (ms further_copy flag_i st)" "reach (ms further_copy flag_i) n s1 st'"
    unfolding reach.simps by blast
  obtain k where k: "s1 = advance (k + length w) st" "1 \<le> k"
      "k \<le> length (takeWhile is_space (rest st))"
      "length w \<le> length (drop k (rest st))"
      "map upper_char (take (length w) (drop k (rest st))) = map upper_char w"
    using s1(1) unfolding ms_body[OF Suc.prems(2)] by blast
  have c1: "map_of (caps s1) 1 = Some w" using Suc.prems(2) k(1) by (simp add: caps_advance)
  from Suc.IH[OF s1(2) c1] have ih: "copies w n (rest s1) (rest st')" "caps st' = caps s1" by simp_all
  let ?sp = "take k (rest st)" and ?w' = "take (length w) (drop k (rest st))"
  have dec: "rest st = ?sp @ ?w' @ rest s1"
    by (simp add: k(1) rest_advance add.commute) (metis append_take_drop_id drop_drop add.commute)
  have kl: "length (takeWhile is_space (rest st)) \<le> length (rest st)" by (rule length_takeWhile_le)
  have ne: "?sp \<noteq> []" using k(2,3) kl by auto
  have sp: "\<forall>c\<in>set ?sp. is_space c" by (rule take_takeWhile_space[OF k(3)])
  have "copies w (Suc n) (rest st) (rest st')"
    unfolding copies.simps
    by (rule exI[of _ ?sp], rule exI[of _ ?w'], rule exI[of _ "rest s1"])
       (use dec ne sp k(5) ih(1) in blast)
  then show ?case using ih(2) k(1) by (simp add: caps_advance)
qed

lemma copies_reach:
  assumes "copies w n (rest st) tail" and "map_of (caps st) 1 = Some w"
  shows "\<exists>st'. reach (ms further_copy flag_i) n st st' \<and> rest st' = tail"
  using assms
proof (induction n arbitrary: st)
  case 0
  then show ?case by simp
next
  case (Suc n)
  from Suc.prems(1) obtain sp w' r where h: "rest st = sp @ w' @ r" "sp \<noteq> []" "\<forall>c\<in>set sp. is_space c"
      "map upper_char w' = map upper_char w" "copies w n r tail"
    unfolding copies.simps by blast
  have lw: "length w' = length w" using h(4) by (metis length_map)
  let ?s1 = "advance (length sp + length w) st"
  have tw: "takeWhile is_space (rest st) = sp @ takeWhile is_space (w' @ r)"
    unfolding h(1) by (rule takeWhile_append2) (use h(3) in blast)
  have l1: "1 \<le> length sp" using h(2) by (cases sp) auto
  have "?s1 \<in> set (ms further_copy flag_i st)"
    unfolding ms_body[OF Suc.prems(2)]
    by (rule CollectI, rule exI[of _ "length sp"]) (use h(1,4) l1 lw tw in auto)
  moreover have r1: "rest ?s1 = r" using h(1) lw by (simp add: rest_advance)
  moreover have "map_of (caps ?s1) 1 = Some w" using Suc.prems(2) by (simp add: caps_advance)
  ultimately obtain st' where "reach (ms further_copy flag_i) n ?s1 st'" "rest st' = tail"
    using Suc.IH[of ?s1] h(5) by (auto simp del: ms.simps)
  then show ?case using \<open>?s1 \<in> set (ms further_copy flag_i st)\<close>
    unfolding reach.simps by blast
qed

lemma reach_prev_word:
  assumes "reach (ms further_copy flag_i) n st st'" and "map_of (caps st) 1 = Some w"
    and "1 \<le> n" and "w \<noteq> []" and "\<forall>c\<in>set w. is_word c"
  shows "\<exists>c. prev st' = Some c \<and> is_word c"
  using assms(1,2,3)
proof (induction n arbitrary: st)
  case 0
  then show ?case by simp
next
  case (Suc n)
  from Suc.prems(1) obtain s1 where s1: "s1 \<in> set (ms further_copy flag_i st)" "reach (ms further_copy flag_i) n s1 st'"
    unfolding reach.simps by blast
  obtain k where k: "s1 = advance (k + length w) st" "1 \<le> k"
      "k \<le> length (takeWhile is_space (rest st))"
      "length w \<le> length (drop k (rest st))"
      "map upper_char (take (length w) (drop k (rest st))) = map upper_char w"
    using s1(1) unfolding ms_body[OF Suc.prems(2)] by blast
  have c1: "map_of (caps s1) 1 = Some w" using Suc.prems(2) k(1) by (simp add: caps_advance)
  show ?case
  proof (cases n)
    case (Suc m)
    then show ?thesis using Suc.IH[OF s1(2) c1] by simp
  next
    case 0
    then have e: "st' = s1" using s1(2) by (simp del: ms.simps)
    let ?i = "k + length w - 1"
    have lw: "0 < length w" using assms(4) by simp
    have bound: "k + length w \<le> length (rest st)"
      using k(3,4) length_takeWhile_le[of is_space "rest st"] by simp
    have pv: "prev s1 = Some (rest st ! ?i)"
      unfolding k(1) by (rule prev_advance) (use k(2) bound in auto)
    have ix: "k + (length w - 1) = ?i" using lw by arith
    have "take (length w) (drop k (rest st)) ! (length w - 1) = rest st ! ?i"
      using lw bound by (simp add: ix[simplified])
    moreover have "map upper_char (take (length w) (drop k (rest st))) ! (length w - 1)
                     = map upper_char w ! (length w - 1)"
      using k(5) by simp
    ultimately have "upper_char (rest st ! ?i) = upper_char (w ! (length w - 1))"
      using lw k(4) by (simp add: nth_map)
    moreover have "is_word (w ! (length w - 1))" using assms(5) lw by simp
    ultimately have "is_word (rest st ! ?i)" by (rule same_upper_word)
    then show ?thesis using pv e by simp
  qed
qed

section \<open>The checks of \<open>detectResponseIssues\<close>\<close>

lemma str_includes_iff: "str_includes s sub = contains s sub"
proof (induction s)
  case Nil
  then show ?case by (auto simp: contains_def)
next
  case (Cons c cs)
  have "contains (c # cs) sub = (prefix sub (c # cs) \<or> contains cs sub)"
  proof
    assume "contains (c # cs) sub"
    then obtain pre post where h: "c # cs = pre @ sub @ post" unfolding contains_def by blast
    show "prefix sub (c # cs) \<or> contains cs sub"
    proof (cases pre)
      case Nil
      then show ?thesis using h by (auto simp: prefix_def)
    next
      case (Cons a pre')
      then have "cs = pre' @ sub @ post" using h by simp
      then show ?thesis unfolding contains_def by blast
    qed
  next
    assume "prefix sub (c # cs) \<or> contains cs sub"
    then show "contains (c # cs) sub"
    proof
      assume "prefix sub (c # cs)"
      then obtain post where "c # cs = [] @ sub @ post" by (auto simp: prefix_def)
      then show ?thesis unfolding contains_def by blast
    next
      assume "contains cs sub"
      then obtain pre post where "cs = pre @ sub @ post" unfolding contains_def by blast
      then have "c # cs = (c # pre) @ sub @ post" by simp
      then show ?thesis unfolding contains_def by blast
    qed
  qed
  then show ?case using Cons.IH by simp
qed

lemma str_includes_char: "str_includes s [c] = (c \<in> set s)"
  by (induction s) auto

lemma end_punctuation_iff:
  "regex_test endPunctuation no_flags t = (t \<noteq> [] \<and> last t \<in> {CHR ''.'', CHR ''!'', CHR ''?''})"
proof -
  have at: "(ms endPunctuation no_flags (at_pos p post) \<noteq> [])
              = (\<exists>c. post = [c] \<and> c \<in> {CHR ''.'', CHR ''!'', CHR ''?''})" for p post
    by (cases post)
       (auto simp: endPunctuation_def one_of_def at_pos_def step_def no_flags_def cls_match_def
             split: list.splits)
  show ?thesis
  proof
    assume "regex_test endPunctuation no_flags t"
    then obtain pre post where "t = pre @ post" "ms endPunctuation no_flags (at_pos (before None pre) post) \<noteq> []"
      unfolding regex_test_iff by blast
    then show "t \<noteq> [] \<and> last t \<in> {CHR ''.'', CHR ''!'', CHR ''?''}"
      unfolding at by auto
  next
    assume h: "t \<noteq> [] \<and> last t \<in> {CHR ''.'', CHR ''!'', CHR ''?''}"
    then have "t = butlast t @ [last t]" by simp
    moreover have "ms endPunctuation no_flags (at_pos (before None (butlast t)) [last t]) \<noteq> []"
      unfolding at using h by blast
    ultimately show "regex_test endPunctuation no_flags t"
      unfolding regex_test_iff by blast
  qed
qed

lemma copies_starts_space:
  assumes "copies w (Suc n) mid tail" shows "mid \<noteq> [] \<and> is_space (hd mid)"
proof -
  from assms obtain sp w' r where "mid = sp @ w' @ r" "sp \<noteq> []" "\<forall>c\<in>set sp. is_space c"
    unfolding copies.simps by blast
  then show ?thesis by (cases sp) auto
qed

text \<open>The loop pattern at one position: a word that starts there, then five or more
  further copies.\<close>

lemma loop_at:
  "set (ms loopPattern flag_i (at_pos p post)) =
     (if boundary (at_pos p post) \<and> takeWhile is_word post \<noteq> []
      then {s'. \<exists>n\<ge>5. reach (ms further_copy flag_i) n
                  ((advance (length (takeWhile is_word post)) (at_pos p post))
                     \<lparr>caps := [(1, takeWhile is_word post)]\<rparr>) s'}
      else {})"
proof -
  let ?st0 = "at_pos p post" and ?w = "takeWhile is_word post"
  let ?st1 = "(advance (length ?w) ?st0)\<lparr>caps := [(1, ?w)]\<rparr>"
  let ?f = "\<lambda>st'. st'\<lparr>caps := (1, consumed ?st0 st') # caps st'\<rparr>"
  have r0: "rest ?st0 = post" and c0: "caps ?st0 = []" by (simp_all add: at_pos_def)
  have kl: "length ?w \<le> length post" by (rule length_takeWhile_le)
  have cons: "consumed ?st0 (advance (length ?w) ?st0) = ?w"
    using kl by (simp add: consumed_def rest_advance r0 takeWhile_eq_take[symmetric])
  have f1: "?f (advance (length ?w) ?st0) = ?st1"
    by (simp add: cons caps_advance c0)
  have grp: "set (ms (Grp 1 (seqs [WordB, plus word, WordB])) flag_i ?st0)
          = (if boundary ?st0 \<and> ?w \<noteq> [] then {?st1} else {})"
  proof -
    have "set (ms (Grp 1 (seqs [WordB, plus word, WordB])) flag_i ?st0)
            = ?f ` set (ms (seqs [WordB, plus word, WordB]) flag_i ?st0)"
      by (simp del: ms.simps add: ms.simps(6))
    also have "\<dots> = (if boundary ?st0 \<and> ?w \<noteq> [] then {?f (advance (length ?w) ?st0)} else {})"
      unfolding ms_word_token r0 by (cases "?w") auto
    finally show ?thesis unfolding f1 .
  qed
  have rp: "set (ms (Rep True 5 None further_copy) flag_i s1)
              = {s'. \<exists>n\<ge>5. reach (ms further_copy flag_i) n s1 s'}" for s1
  proof -
    have "ms (Rep True 5 None further_copy) flag_i s1 = rep (ms further_copy flag_i) True 5 None s1"
      by (simp only: ms.simps(5))
    then show ?thesis using rep_set[of "ms further_copy flag_i" True 5 s1] body_progress by simp
  qed
  have "set (ms loopPattern flag_i ?st0)
          = (\<Union>s1\<in>set (ms (Grp 1 (seqs [WordB, plus word, WordB])) flag_i ?st0).
               set (ms (Rep True 5 None further_copy) flag_i s1))"
    unfolding loopPattern_def by (rule ms_Seq_set)
  also have "\<dots> = (if boundary ?st0 \<and> ?w \<noteq> []
                   then {s'. \<exists>n\<ge>5. reach (ms further_copy flag_i) n ?st1 s'} else {})"
    unfolding grp rp by simp
  finally show ?thesis .
qed

lemma boundary_word_start:
  assumes "takeWhile is_word post \<noteq> []"
  shows "boundary (at_pos (before None pre) post) = (pre = [] \<or> \<not> is_word (last pre))"
proof -
  obtain c cs where p: "post = c # cs" "is_word c"
    using assms by (cases post) (auto split: if_splits)
  show ?thesis by (simp add: boundary_def at_pos_def before_def p)
qed

lemma takeWhile_word_then_space:
  assumes "\<forall>c\<in>set w. is_word c" and "mid \<noteq> [] \<and> is_space (hd mid)"
  shows "takeWhile is_word (w @ mid) = w" and "dropWhile is_word (w @ mid) = mid"
proof -
  obtain c cs where m: "mid = c # cs" "\<not> is_word c"
    using assms(2) space_not_word by (cases mid) auto
  show "takeWhile is_word (w @ mid) = w"
    using assms(1) m by (simp add: takeWhile_append2)
  show "dropWhile is_word (w @ mid) = mid"
    using assms(1) m by (simp add: dropWhile_append2)
qed

text \<open>What the states after the word look like.\<close>

lemma after_word:
  "rest ((advance (length (takeWhile is_word post)) (at_pos p post))\<lparr>caps := [(1, takeWhile is_word post)]\<rparr>)
     = dropWhile is_word post"
  "map_of (caps ((advance (length (takeWhile is_word post)) (at_pos p post))\<lparr>caps := [(1, takeWhile is_word post)]\<rparr>)) 1
     = Some (takeWhile is_word post)"
  by (simp_all add: rest_advance at_pos_def dropWhile_eq_drop)

lemma loop_prefix_iff: "regex_test loopPattern flag_i s = word_repeated_as_prefix s"
proof
  assume "regex_test loopPattern flag_i s"
  then obtain pre post where s: "s = pre @ post"
    and m: "set (ms loopPattern flag_i (at_pos (before None pre) post)) \<noteq> {}"
    unfolding regex_test_iff by auto
  let ?w = "takeWhile is_word post"
  let ?st1 = "(advance (length ?w) (at_pos (before None pre) post))\<lparr>caps := [(1, ?w)]\<rparr>"
  from m have b: "boundary (at_pos (before None pre) post)" and w: "?w \<noteq> []"
    and "\<exists>s' n. 5 \<le> n \<and> reach (ms further_copy flag_i) n ?st1 s'"
    unfolding loop_at by (auto split: if_splits)
  then obtain s' n where n: "5 \<le> n" "reach (ms further_copy flag_i) n ?st1 s'" by blast
  from reach_copies[OF n(2) after_word(2)]
  have c: "copies ?w n (dropWhile is_word post) (rest s')" unfolding after_word(1) by simp
  have "s = pre @ ?w @ dropWhile is_word post" using s by simp
  moreover have "\<forall>c\<in>set ?w. is_word c" by (auto dest: set_takeWhileD)
  moreover have "pre = [] \<or> \<not> is_word (last pre)" using b boundary_word_start[OF w] by simp
  ultimately show "word_repeated_as_prefix s"
    unfolding word_repeated_as_prefix_def using w n(1) c by blast
next
  assume "word_repeated_as_prefix s"
  then obtain pre w mid tail n where h: "s = pre @ w @ mid" "w \<noteq> []" "\<forall>c\<in>set w. is_word c"
      "pre = [] \<or> \<not> is_word (last pre)" "5 \<le> n" "copies w n mid tail"
    unfolding word_repeated_as_prefix_def by blast
  obtain k where k: "n = Suc k" using h(5) by (cases n) auto
  have sp: "mid \<noteq> [] \<and> is_space (hd mid)" using copies_starts_space h(6) k by blast
  let ?post = "w @ mid"
  note tw = takeWhile_word_then_space[OF h(3) sp]
  let ?st1 = "(advance (length w) (at_pos (before None pre) ?post))\<lparr>caps := [(1, w)]\<rparr>"
  have r1: "rest ?st1 = mid" and c1: "map_of (caps ?st1) 1 = Some w"
    using after_word[of ?post "before None pre"] unfolding tw by simp_all
  obtain st' where st': "reach (ms further_copy flag_i) n ?st1 st'"
    using copies_reach[of w n ?st1 tail] h(6) r1 c1 by auto
  have b: "boundary (at_pos (before None pre) ?post)"
    using boundary_word_start[of ?post pre] h(2,4) unfolding tw(1) by simp
  have "st' \<in> set (ms loopPattern flag_i (at_pos (before None pre) ?post))"
    unfolding loop_at tw(1) using b h(2,5) st' by auto
  then have "ms loopPattern flag_i (at_pos (before None pre) ?post) \<noteq> []" by auto
  then show "regex_test loopPattern flag_i s"
    unfolding regex_test_iff using h(1) by blast
qed

lemma boundary_after_copies:
  assumes "prev s' = Some c" "is_word c"
  shows "boundary s' = (rest s' = [] \<or> \<not> is_word (hd (rest s')))"
  using assms by (cases "rest s'") (simp_all add: boundary_def)

text \<open>With a word boundary required after the last copy, the pattern is the wording
  of the specification.\<close>

lemma loop_whole_iff: "regex_test (Seq loopPattern WordB) flag_i s = word_token_repeated s"
proof
  assume "regex_test (Seq loopPattern WordB) flag_i s"
  then obtain pre post where s: "s = pre @ post"
    and m: "set (ms (Seq loopPattern WordB) flag_i (at_pos (before None pre) post)) \<noteq> {}"
    unfolding regex_test_iff by auto
  let ?w = "takeWhile is_word post"
  let ?st1 = "(advance (length ?w) (at_pos (before None pre) post))\<lparr>caps := [(1, ?w)]\<rparr>"
  from m obtain s' where s': "s' \<in> set (ms loopPattern flag_i (at_pos (before None pre) post))"
      "boundary s'"
    unfolding ms_Seq_set ms_WordB by (auto split: if_splits)
  from s'(1) have b: "boundary (at_pos (before None pre) post)" and w: "?w \<noteq> []"
    and "\<exists>n. 5 \<le> n \<and> reach (ms further_copy flag_i) n ?st1 s'"
    unfolding loop_at by (auto split: if_splits)
  then obtain n where n: "5 \<le> n" "reach (ms further_copy flag_i) n ?st1 s'" by blast
  have aw: "\<forall>c\<in>set ?w. is_word c" by (auto dest: set_takeWhileD)
  from reach_copies[OF n(2) after_word(2)]
  have c: "copies ?w n (dropWhile is_word post) (rest s')" unfolding after_word(1) by simp
  obtain c' where pv: "prev s' = Some c'" "is_word c'"
    using reach_prev_word[OF n(2) after_word(2) _ w aw] n(1) by auto
  have t: "rest s' = [] \<or> \<not> is_word (hd (rest s'))"
    using s'(2) boundary_after_copies[OF pv] by simp
  have "s = pre @ ?w @ dropWhile is_word post" using s by simp
  moreover have "pre = [] \<or> \<not> is_word (last pre)" using b boundary_word_start[OF w] by simp
  ultimately show "word_token_repeated s"
    unfolding word_token_repeated_def using w aw n(1) c t by blast
next
  assume "word_token_repeated s"
  then obtain pre w mid tail n where h: "s = pre @ w @ mid" "w \<noteq> []" "\<forall>c\<in>set w. is_word c"
      "pre = [] \<or> \<not> is_word (last pre)" "5 \<le> n" "copies w n mid tail"
      "tail = [] \<or> \<not> is_word (hd tail)"
    unfolding word_token_repeated_def by blast
  obtain k where k: "n = Suc k" using h(5) by (cases n) auto
  have sp: "mid \<noteq> [] \<and> is_space (hd mid)" using copies_starts_space h(6) k by blast
  let ?post = "w @ mid"
  note tw = takeWhile_word_then_space[OF h(3) sp]
  let ?st1 = "(advance (length w) (at_pos (before None pre) ?post))\<lparr>caps := [(1, w)]\<rparr>"
  have r1: "rest ?st1 = mid" and c1: "map_of (caps ?st1) 1 = Some w"
    using after_word[of ?post "before None pre"] unfolding tw by simp_all
  obtain st' where st': "reach (ms further_copy flag_i) n ?st1 st'" "rest st' = tail"
    using copies_reach[of w n ?st1 tail] h(6) r1 c1 by auto
  obtain c' where pv: "prev st' = Some c'" "is_word c'"
    using reach_prev_word[OF st'(1) c1 _ h(2,3)] h(5) by auto
  have bs: "boundary st'" using boundary_after_copies[OF pv] h(7) st'(2) by simp
  have b: "boundary (at_pos (before None pre) ?post)"
    using boundary_word_start[of ?post pre] h(2,4) unfolding tw(1) by simp
  have "st' \<in> set (ms loopPattern flag_i (at_pos (before None pre) ?post))"
    unfolding loop_at tw(1) using b h(2,5) st'(1) by auto
  then have "st' \<in> set (ms (Seq loopPattern WordB) flag_i (at_pos (before None pre) ?post))"
    unfolding ms_Seq_set ms_WordB using bs by auto
  then have "ms (Seq loopPattern WordB) flag_i (at_pos (before None pre) ?post) \<noteq> []" by auto
  then show "regex_test (Seq loopPattern WordB) flag_i s"
    unfolding regex_test_iff using h(1) by blast
qed

section \<open>Properties of the cleanup pipeline\<close>

lemma ms_chr: "ms (chr c) fl st =
   (if rest st \<noteq> [] \<and> cls_match fl False (\<lambda>x. x = c) (hd (rest st)) then [step st] else [])"
  unfolding chr_def by (rule ms_Cls)

lemma cls_match_eq_no_flags: "cls_match no_flags False (\<lambda>x. x = c) y = (y = c)"
  by simp

text \<open>Counting the matches of a one-character pattern is counting the character.\<close>

lemma match_loop_chr:
  "length (match_loop (chr c) no_flags st) = count_list (rest st) c"
proof (induction "length (rest st)" arbitrary: st rule: less_induct)
  case less
  show ?case
  proof (cases "rest st")
    case Nil
    then show ?thesis
      by (subst match_loop.simps) (simp add: ms_chr del: ms.simps)
  next
    case (Cons x xs)
    have rs: "rest (step st) = xs" by (simp add: rest_step Cons)
    have IH: "length (match_loop (chr c) no_flags (step st)) = count_list xs c"
      using less[of "step st"] rs Cons by simp
    show ?thesis
    proof (cases "x = c")
      case True
      have m: "ms (chr c) no_flags (st\<lparr>caps := []\<rparr>) = [step (st\<lparr>caps := []\<rparr>)]"
        by (simp add: ms_chr Cons True del: ms.simps)
      have r2: "rest (step (st\<lparr>caps := []\<rparr>)) = xs" by (simp add: rest_step Cons)
      have IH2: "length (match_loop (chr c) no_flags (step (st\<lparr>caps := []\<rparr>))) = count_list xs c"
        using less[of "step (st\<lparr>caps := []\<rparr>)"] r2 Cons by simp
      show ?thesis
        by (subst match_loop.simps) (simp add: m r2 Cons True IH2 del: ms.simps)
    next
      case False
      have m: "ms (chr c) no_flags (st\<lparr>caps := []\<rparr>) = []"
        by (simp add: ms_chr Cons False del: ms.simps)
      show ?thesis
        by (subst match_loop.simps) (simp add: m Cons False IH del: ms.simps)
    qed
  qed
qed

lemma match_all_chr: "length (match_all (chr c) no_flags s) = count_list s c"
  by (simp add: match_all_def match_loop_chr init_def)

lemma closeTruncatedObject_eq:
  "closeTruncatedObject s =
     (if CHR ''{'' \<in> set s \<and> CHR ''}'' \<notin> set s
      then s @ replicate (count_list s CHR ''{'') CHR ''}'' else s)"
proof -
  have b: "str_includes s ''{'' = (CHR ''{'' \<in> set s)" "str_includes s ''}'' = (CHR ''}'' \<in> set s)"
    by (rule str_includes_char)+
  have z: "CHR ''}'' \<notin> set s \<Longrightarrow> count_list s CHR ''}'' = 0" by (simp add: count_list_0_iff)
  have p: "CHR ''{'' \<in> set s \<Longrightarrow> 0 < count_list s CHR ''{''"
    using count_list_0_iff[of s "CHR ''{''"] by auto
  show ?thesis
    unfolding closeTruncatedObject_def b match_all_chr Let_def using z p by auto
qed

text \<open>How single components move the position: what they consume and what they do to
  the captures.\<close>

lemma cls_match_plain: "\<not> ignoreCase fl \<Longrightarrow> cls_match fl neg P x = (neg \<noteq> P x)"
  by (simp add: cls_match_def)

lemma SeqE:
  assumes "s' \<in> set (ms (Seq r1 r2) fl st)"
  obtains s1 where "s1 \<in> set (ms r1 fl st)" "s' \<in> set (ms r2 fl s1)"
  using assms by auto

lemma ClsE:
  assumes "s' \<in> set (ms (Cls neg P) fl st)" and "\<not> ignoreCase fl"
  obtains x where "rest st = x # rest s'" "neg \<noteq> P x" "caps s' = caps st"
proof -
  from assms(1) have a: "rest st \<noteq> []" "cls_match fl neg P (hd (rest st))" "s' = step st"
    unfolding ms_Cls by (auto split: if_splits)
  then obtain x xs where r: "rest st = x # xs" by (cases "rest st") auto
  show ?thesis
    by (rule that[of x]) (use a r cls_match_plain[OF assms(2)] in \<open>auto simp: rest_step caps_step\<close>)
qed

lemma chrE:
  assumes "s' \<in> set (ms (chr c) fl st)" and "\<not> ignoreCase fl"
  shows "rest st = c # rest s' \<and> caps s' = caps st"
proof -
  from assms(1) have "s' \<in> set (ms (Cls False (\<lambda>x. x = c)) fl st)" unfolding chr_def .
  from ClsE[OF this assms(2)] show ?thesis by metis
qed

lemma take_takeWhile_all:
  assumes "n \<le> length (takeWhile P xs)" shows "\<forall>c\<in>set (take n xs). P c"
  using assms by (rule take_takeWhile_space)

lemma RepClsE:
  assumes "s' \<in> set (ms (Rep g mn None (Cls neg P)) fl st)" and "\<not> ignoreCase fl"
  obtains xs where "rest st = xs @ rest s'" "\<forall>x\<in>set xs. neg \<noteq> P x" "mn \<le> length xs"
    "caps s' = caps st"
proof -
  from assms(1) obtain n where n: "s' = advance n st" "mn \<le> n"
      "n \<le> length (takeWhile (cls_match fl neg P) (rest st))"
    by (simp only: ms.simps(5) rep_cls_set) blast
  have kl: "length (takeWhile (cls_match fl neg P) (rest st)) \<le> length (rest st)"
    by (rule length_takeWhile_le)
  have a: "\<forall>x\<in>set (take n (rest st)). cls_match fl neg P x"
    by (rule take_takeWhile_all[OF n(3)])
  show ?thesis
    by (rule that[of "take n (rest st)"])
       (use n kl a cls_match_plain[OF assms(2)] in \<open>auto simp: rest_advance caps_advance\<close>)
qed

lemma starE:
  assumes "s' \<in> set (ms (star (Cls neg P)) fl st)" and "\<not> ignoreCase fl"
  obtains xs where "rest st = xs @ rest s'" "\<forall>x\<in>set xs. neg \<noteq> P x" "caps s' = caps st"
proof -
  from assms(1) have "s' \<in> set (ms (Rep True 0 None (Cls neg P)) fl st)" unfolding star_def .
  from RepClsE[OF this assms(2)] show ?thesis using that by metis
qed

lemma plusE:
  assumes "s' \<in> set (ms (plus (Cls neg P)) fl st)" and "\<not> ignoreCase fl"
  obtains xs where "rest st = xs @ rest s'" "\<forall>x\<in>set xs. neg \<noteq> P x" "xs \<noteq> []"
    "caps s' = caps st"
proof -
  from assms(1) have "s' \<in> set (ms (Rep True 1 None (Cls neg P)) fl st)" unfolding plus_def .
  from RepClsE[OF this assms(2)]
  obtain xs where "rest st = xs @ rest s'" "\<forall>x\<in>set xs. neg \<noteq> P x" "1 \<le> length xs"
    "caps s' = caps st"
    by metis
  then show ?thesis using that[of xs] by (cases xs) auto
qed

lemma consumed_append: "rest st = m @ rest s' \<Longrightarrow> consumed st s' = m"
  by (simp add: consumed_def)

lemma GrpE:
  assumes "s' \<in> set (ms (Grp n r) fl st)"
  obtains s1 where "s1 \<in> set (ms r fl st)" "rest s' = rest s1"
    "caps s' = (n, consumed st s1) # caps s1"
  using assms by auto

lemma EolE: "s' \<in> set (ms Eol fl st) \<Longrightarrow> s' = st"
  by (auto split: list.splits if_splits)

lemma EpsE: "s' \<in> set (ms Eps fl st) \<Longrightarrow> s' = st"
  by simp

lemma group_hd: "caps s = (n, v) # cs \<Longrightarrow> group s n = v"
  by (simp add: group_def)

subsection \<open>Invariants of global replacement\<close>

lemma consumed_caps [simp]: "consumed (st\<lparr>caps := cs\<rparr>) s' = consumed st s'"
  by (simp add: consumed_def)

text \<open>A replacement whose every match gives back as many \<open>c\<close> as it takes keeps the
  number of \<open>c\<close>.\<close>

lemma replace_loop_count:
  assumes m: "\<And>st st'. caps st = [] \<Longrightarrow> st' \<in> set (ms r fl st) \<Longrightarrow>
                rest st = consumed st st' @ rest st'
                \<and> count_list (f (consumed st st') (group st')) c = count_list (consumed st st') c"
  shows "count_list (replace_loop r fl glob f st) c = count_list (rest st) c"
proof (induction "length (rest st)" arbitrary: st rule: less_induct)
  case less
  let ?st0 = "st\<lparr>caps := []\<rparr>"
  show ?case
  proof (cases "ms r fl ?st0")
    case Nil
    show ?thesis
    proof (cases "rest st")
      case Nil
      then show ?thesis using \<open>ms r fl ?st0 = []\<close>
        by (subst replace_loop.simps) simp
    next
      case (Cons x xs)
      have "count_list (replace_loop r fl glob f (step st)) c = count_list xs c"
        using less[of "step st"] Cons by (simp add: rest_step)
      then show ?thesis using \<open>ms r fl ?st0 = []\<close> Cons
        by (subst replace_loop.simps) simp
    qed
  next
    case (Cons st' more)
    have "st' \<in> set (ms r fl ?st0)" using Cons by simp
    from m[OF _ this] have d: "rest st = consumed st st' @ rest st'"
      and k: "count_list (f (consumed st st') (group st')) c = count_list (consumed st st') c"
      by simp_all
    have tot: "count_list (rest st) c = count_list (consumed st st') c + count_list (rest st') c"
      by (subst d) simp
    show ?thesis
    proof (cases "glob \<and> length (rest st') < length (rest st)")
      case True
      then have "count_list (replace_loop r fl glob f st') c = count_list (rest st') c"
        using less[of st'] by simp
      then show ?thesis using Cons True k tot
        by (subst replace_loop.simps) simp
    next
      case False
      show ?thesis
      proof (cases glob)
        case False
        then show ?thesis using Cons k tot
          by (subst replace_loop.simps) simp
      next
        case True
        then have nl: "\<not> length (rest st') < length (rest st)" using \<open>\<not> (glob \<and> _)\<close> by simp
        then have e: "consumed st st' = []" by (simp add: consumed_def)
        show ?thesis
        proof (cases "rest st")
          case Nil
          then show ?thesis using Cons True nl k e
            by (subst replace_loop.simps) simp
        next
          case (Cons x xs)
          have "count_list (replace_loop r fl glob f (step st)) c = count_list xs c"
            using less[of "step st"] Cons by (simp add: rest_step)
          then show ?thesis using \<open>ms r fl ?st0 = st' # more\<close> True nl k e Cons
            by (subst replace_loop.simps) simp
        qed
      qed
    qed
  qed
qed

text \<open>An expression that cannot match leaves the text as it is.\<close>

lemma replace_loop_no_match:
  assumes "\<And>st'. set (rest st') \<subseteq> set (rest st) \<Longrightarrow> ms r fl st' = []"
  shows "replace_loop r fl glob f st = rest st"
  using assms
proof (induction "length (rest st)" arbitrary: st rule: less_induct)
  case less
  have n: "ms r fl (st\<lparr>caps := []\<rparr>) = []" by (rule less.prems) simp
  show ?case
  proof (cases "rest st")
    case Nil
    then show ?thesis using n by (subst replace_loop.simps) simp
  next
    case (Cons x xs)
    have "replace_loop r fl glob f (step st) = rest (step st)"
      by (rule less.hyps) (use Cons less.prems in \<open>auto simp: rest_step\<close>)
    then show ?thesis using n Cons by (subst replace_loop.simps) (simp add: rest_step)
  qed
qed

text \<open>The characters of the result come from the text or from the replacements.\<close>

lemma replace_loop_chars:
  assumes m: "\<And>st st'. caps st = [] \<Longrightarrow> st' \<in> set (ms r fl st) \<Longrightarrow>
                rest st = consumed st st' @ rest st'
                \<and> set (f (consumed st st') (group st')) \<subseteq> set (consumed st st') \<union> A"
  shows "set (replace_loop r fl glob f st) \<subseteq> set (rest st) \<union> A"
proof (induction "length (rest st)" arbitrary: st rule: less_induct)
  case less
  let ?st0 = "st\<lparr>caps := []\<rparr>"
  show ?case
  proof (cases "ms r fl ?st0")
    case Nil
    show ?thesis
    proof (cases "rest st")
      case Nil
      then show ?thesis using \<open>ms r fl ?st0 = []\<close>
        by (subst replace_loop.simps) simp
    next
      case (Cons x xs)
      have "set (replace_loop r fl glob f (step st)) \<subseteq> set xs \<union> A"
        using less[of "step st"] Cons by (simp add: rest_step)
      then show ?thesis using \<open>ms r fl ?st0 = []\<close> Cons
        by (subst replace_loop.simps) auto
    qed
  next
    case (Cons st' more)
    have "st' \<in> set (ms r fl ?st0)" using Cons by simp
    from m[OF _ this] have d: "rest st = consumed st st' @ rest st'"
      and k: "set (f (consumed st st') (group st')) \<subseteq> set (consumed st st') \<union> A"
      by simp_all
    have tot: "set (rest st) = set (consumed st st') \<union> set (rest st')"
      by (subst d) simp
    show ?thesis
    proof (cases "glob \<and> length (rest st') < length (rest st)")
      case True
      then have "set (replace_loop r fl glob f st') \<subseteq> set (rest st') \<union> A"
        using less[of st'] by simp
      then show ?thesis using Cons True k tot
        by (subst replace_loop.simps) auto
    next
      case False
      show ?thesis
      proof (cases glob)
        case False
        then show ?thesis using Cons k tot
          by (subst replace_loop.simps) auto
      next
        case True
        then have nl: "\<not> length (rest st') < length (rest st)" using \<open>\<not> (glob \<and> _)\<close> by simp
        show ?thesis
        proof (cases "rest st")
          case Nil
          then show ?thesis using Cons True nl k tot
            by (subst replace_loop.simps) auto
        next
          case (Cons x xs)
          have "set (replace_loop r fl glob f (step st)) \<subseteq> set xs \<union> A"
            using less[of "step st"] Cons by (simp add: rest_step)
          then show ?thesis using \<open>ms r fl ?st0 = st' # more\<close> True nl k tot Cons
            by (subst replace_loop.simps) auto
        qed
      qed
    qed
  qed
qed

text \<open>A text that ends in \<open>n\<close> closing braces, its only ones, keeps that shape when
  every match either stays clear of the braces or ends with the first of them and gives
  it back last.\<close>

lemma replace_loop_tail_braces:
  assumes m: "\<And>st st'. caps st = [] \<Longrightarrow> st' \<in> set (ms r fl st) \<Longrightarrow>
      (\<exists>ma. rest st = ma @ rest st' \<and> ma \<noteq> []
         \<and> ((CHR ''}'' \<notin> set ma \<and> CHR ''}'' \<notin> set (f ma (group st')))
             \<or> (\<exists>b b'. ma = b @ ''}'' \<and> CHR ''}'' \<notin> set b
                    \<and> f ma (group st') = b' @ ''}'' \<and> CHR ''}'' \<notin> set b'
                    \<and> (b = [] \<longrightarrow> b' = []))))"
    and "rest st = u @ replicate n CHR ''}''" and "CHR ''}'' \<notin> set u"
  shows "\<exists>body. replace_loop r fl True f st = body @ replicate n CHR ''}''
           \<and> CHR ''}'' \<notin> set body \<and> (u = [] \<longrightarrow> body = [])"
  using assms(2,3)
proof (induction "length (rest st)" arbitrary: st u n rule: less_induct)
  case less
  let ?st0 = "st\<lparr>caps := []\<rparr>"
  note shape = less.prems
  show ?case
  proof (cases "ms r fl ?st0")
    case Nil
    show ?thesis
    proof (cases "rest st")
      case Nil
      then have "u = []" "n = 0" using shape by auto
      then show ?thesis using Nil \<open>ms r fl ?st0 = []\<close>
        by (subst replace_loop.simps) simp
    next
      case (Cons x xs)
      have rs: "rest (step st) = xs" by (simp add: rest_step Cons)
      show ?thesis
      proof (cases u)
        case Nil
        then obtain k where k: "n = Suc k" "x = CHR ''}''" "xs = replicate k CHR ''}''"
          using shape Cons by (cases n) auto
        obtain body where b: "replace_loop r fl True f (step st) = body @ replicate k CHR ''}''"
            "body = []"
          using less.hyps[of "step st" "[]" k] rs k Cons by auto
        have "replace_loop r fl True f st = [] @ replicate n CHR ''}''"
          using \<open>ms r fl ?st0 = []\<close> Cons b k by (subst replace_loop.simps) simp
        then show ?thesis using Nil by auto
      next
        case (Cons y u')
        then have xy: "x = y" "xs = u' @ replicate n CHR ''}''"
          using shape \<open>rest st = x # xs\<close> by auto
        obtain body where b: "replace_loop r fl True f (step st) = body @ replicate n CHR ''}''"
            "CHR ''}'' \<notin> set body"
          using less.hyps[of "step st" u' n] rs xy shape Cons \<open>rest st = x # xs\<close> by auto
        have "replace_loop r fl True f st = (x # body) @ replicate n CHR ''}''"
          using \<open>ms r fl ?st0 = []\<close> \<open>rest st = x # xs\<close> b by (subst replace_loop.simps) simp
        moreover have "CHR ''}'' \<notin> set (x # body)" using b(2) xy shape Cons by auto
        ultimately show ?thesis using Cons by blast
      qed
    qed
  next
    case (Cons st' more)
    have "st' \<in> set (ms r fl ?st0)" using Cons by simp
    from m[OF _ this] obtain ma where d: "rest st = ma @ rest st'" and ne: "ma \<noteq> []"
      and alt: "(CHR ''}'' \<notin> set ma \<and> CHR ''}'' \<notin> set (f ma (group st')))
             \<or> (\<exists>b b'. ma = b @ ''}'' \<and> CHR ''}'' \<notin> set b
                    \<and> f ma (group st') = b' @ ''}'' \<and> CHR ''}'' \<notin> set b'
                    \<and> (b = [] \<longrightarrow> b' = []))"
      by auto
    have cm: "consumed st st' = ma" using d by (rule consumed_append)
    have lt: "length (rest st') < length (rest st)" using d ne by simp
    have unf: "replace_loop r fl True f st = f ma (group st') @ replace_loop r fl True f st'"
      using Cons lt cm by (subst replace_loop.simps) simp
    from alt show ?thesis
    proof
      assume a: "CHR ''}'' \<notin> set ma \<and> CHR ''}'' \<notin> set (f ma (group st'))"
      have e: "ma @ rest st' = u @ replicate n CHR ''}''" using d shape(1) by simp
      have "length ma \<le> length u"
      proof (rule ccontr)
        assume "\<not> length ma \<le> length u"
        then have l: "length u < length ma" by simp
        have "(ma @ rest st') ! length u = ma ! length u" using l by (simp add: nth_append)
        moreover have "length u < length (u @ replicate n CHR ''}'')"
          using l e by (metis length_append trans_less_add1)
        then have "(u @ replicate n CHR ''}'') ! length u = CHR ''}''"
          by (simp add: nth_append)
        ultimately have "ma ! length u = CHR ''}''" using e by simp
        then show False using a l by (metis nth_mem)
      qed
      then obtain u' where u': "u = ma @ u'" "rest st' = u' @ replicate n CHR ''}''"
        using e by (metis append_eq_append_conv_if append_take_drop_id append_assoc same_append_eq)
      obtain body where b: "replace_loop r fl True f st' = body @ replicate n CHR ''}''"
          "CHR ''}'' \<notin> set body"
        using less.hyps[OF lt u'(2)] shape(2) u'(1) by auto
      have "replace_loop r fl True f st = (f ma (group st') @ body) @ replicate n CHR ''}''"
        using unf b by simp
      moreover have "CHR ''}'' \<notin> set (f ma (group st') @ body)" using a b(2) by simp
      moreover have "u \<noteq> []" using u'(1) ne by simp
      ultimately show ?thesis by blast
    next
      assume "\<exists>b b'. ma = b @ ''}'' \<and> CHR ''}'' \<notin> set b
                    \<and> f ma (group st') = b' @ ''}'' \<and> CHR ''}'' \<notin> set b'
                    \<and> (b = [] \<longrightarrow> b' = [])"
      then obtain b b' where bb: "ma = b @ ''}''" "CHR ''}'' \<notin> set b"
          "f ma (group st') = b' @ ''}''" "CHR ''}'' \<notin> set b'" "b = [] \<longrightarrow> b' = []"
        by blast
      have e: "b @ CHR ''}'' # rest st' = u @ replicate n CHR ''}''" using d shape(1) bb(1) by simp
      obtain k where k: "n = Suc k"
      proof (cases n)
        case 0
        then have "CHR ''}'' \<in> set u" using e by (metis append_Nil2 in_set_conv_decomp replicate_0)
        then show ?thesis using shape(2) by simp
      next
        case (Suc k)
        then show ?thesis using that by simp
      qed
      have e2: "b @ CHR ''}'' # rest st' = u @ CHR ''}'' # replicate k CHR ''}''"
        using e k by simp
      have ub: "b = u \<and> rest st' = replicate k CHR ''}''"
        by (rule append_sep_inj[OF bb(2) shape(2) e2])
      then have r': "rest st' = [] @ replicate k CHR ''}''" by simp
      obtain body where b2: "replace_loop r fl True f st' = body @ replicate k CHR ''}''" "body = []"
        using less.hyps[OF lt r'] by auto
      have "replace_loop r fl True f st = b' @ replicate n CHR ''}''"
        using unf bb(3) b2 k by simp
      moreover have "u = [] \<longrightarrow> b' = []" using ub bb(5) by simp
      ultimately show ?thesis using bb(4) by blast
    qed
  qed
qed


subsection \<open>What the expressions of the array-element repair match\<close>

lemma not_ignoreCase [simp]: "\<not> ignoreCase no_flags" "\<not> ignoreCase flag_m"
  by (simp_all add: no_flags_def flag_m_def)

lemma seqs_Cons: "seqs (r # rs) = Seq r (seqs rs)"
  by (simp add: seqs_def)

lemma seqs_Nil: "seqs [] = Eps"
  by (simp add: seqs_def)

lemma chrD:
  assumes "s' \<in> set (ms (chr c) fl st)" and "\<not> ignoreCase fl"
  obtains "rest st = c # rest s'" "caps s' = caps st"
  using chrE[OF assms] by blast

lemma litE:
  assumes "s' \<in> set (ms (lit w) fl st)" and "\<not> ignoreCase fl"
  shows "rest st = w @ rest s' \<and> caps s' = caps st"
  using assms(1)
proof (induction w arbitrary: st)
  case Nil
  then show ?case by (simp add: lit_def seqs_def)
next
  case (Cons c w)
  from Cons.prems have "s' \<in> set (ms (Seq (chr c) (lit w)) fl st)"
    by (simp add: lit_def seqs_def)
  then obtain s1 where 1: "s1 \<in> set (ms (chr c) fl st)" and 2: "s' \<in> set (ms (lit w) fl s1)"
    by (rule SeqE)
  from chrE[OF 1 assms(2)] Cons.IH[OF 2] show ?case by simp
qed

lemma adjacentStrings_match:
  assumes "s' \<in> set (ms adjacentStrings no_flags st)"
  obtains ws g where "rest st = dquote # ws @ dquote # g @ dquote # rest s'"
    "\<forall>x\<in>set ws. is_space x" "\<forall>x\<in>set g. x \<notin> set (dquote # '',}]'')" "group s' 1 = g"
proof -
  from assms obtain s1 s2 s3 s4 where
    1: "s1 \<in> set (ms (chr dquote) no_flags st)" and
    2: "s2 \<in> set (ms (plus (Cls False is_space)) no_flags s1)" and
    3: "s3 \<in> set (ms (chr dquote) no_flags s2)" and
    4: "s4 \<in> set (ms (Grp 1 (plus (Cls True (\<lambda>x. x \<in> set (dquote # '',}]''))))) no_flags s3)" and
    5: "s' \<in> set (ms (chr dquote) no_flags s4)"
    unfolding adjacentStrings_def seqs_Cons seqs_Nil space_def none_of_def ms.simps(2,3)
    by (auto simp del: ms.simps)
  from 4 obtain s5 where
    6: "s5 \<in> set (ms (plus (Cls True (\<lambda>x. x \<in> set (dquote # '',}]'')))) no_flags s3)"
    and 7: "rest s4 = rest s5" "caps s4 = (1, consumed s3 s5) # caps s5"
    by (rule GrpE)
  from plusE[OF 2] obtain ws where w: "rest s1 = ws @ rest s2" "\<forall>x\<in>set ws. is_space x"
    by (metis not_ignoreCase(1))
  from plusE[OF 6] obtain g where g: "rest s3 = g @ rest s5"
    "\<forall>x\<in>set g. x \<notin> set (dquote # '',}]'')"
    by (metis not_ignoreCase(1))
  have c: "consumed s3 s5 = g" using g(1) by (rule consumed_append)
  show ?thesis
  proof (rule that[of ws g])
    show "rest st = dquote # ws @ dquote # g @ dquote # rest s'"
      using chrE[OF 1] chrE[OF 3] chrE[OF 5] w(1) g(1) 7(1) by simp
    show "group s' 1 = g" using chrE[OF 5] 7(2) c by (simp add: group_def)
  qed (use w g in auto)
qed


lemma adjacentObjects_match:
  assumes "s' \<in> set (ms adjacentObjects no_flags st)"
  obtains ws where "rest st = CHR ''}'' # ws @ CHR ''{'' # rest s'" "\<forall>x\<in>set ws. is_space x"
proof -
  from assms obtain s1 s2 where
    1: "s1 \<in> set (ms (chr CHR ''}'') no_flags st)" and
    2: "s2 \<in> set (ms (star (Cls False is_space)) no_flags s1)" and
    3: "s' \<in> set (ms (chr CHR ''{'') no_flags s2)"
    unfolding adjacentObjects_def seqs_Cons seqs_Nil space_def ms.simps(2,3)
    by (auto simp del: ms.simps)
  from starE[OF 2] obtain ws where w: "rest s1 = ws @ rest s2" "\<forall>x\<in>set ws. is_space x"
    by (metis not_ignoreCase(1))
  show ?thesis
    by (rule that[of ws]) (use chrE[OF 1] chrE[OF 3] w in auto)
qed

lemma spaceBeforeBracket_match:
  assumes "s' \<in> set (ms spaceBeforeBracket no_flags st)"
  obtains x ws where "rest st = x # ws @ CHR '']'' # rest s'" "\<forall>x\<in>set ws. is_space x"
    "group s' 1 = [x]"
proof -
  from assms obtain s1 s2 where
    1: "s1 \<in> set (ms (Grp 1 (Cls True (\<lambda>c. c = CHR '','' \<or> is_space c))) no_flags st)" and
    2: "s2 \<in> set (ms (star (Cls False is_space)) no_flags s1)" and
    3: "s' \<in> set (ms (chr CHR '']'') no_flags s2)"
    unfolding spaceBeforeBracket_def seqs_Cons seqs_Nil space_def ms.simps(2,3)
    by (auto simp del: ms.simps)
  from 1 obtain s0 where
    4: "s0 \<in> set (ms (Cls True (\<lambda>c. c = CHR '','' \<or> is_space c)) no_flags st)"
    and 5: "rest s1 = rest s0" "caps s1 = (1, consumed st s0) # caps s0"
    by (rule GrpE)
  from ClsE[OF 4] obtain x where x: "rest st = x # rest s0" by (metis not_ignoreCase(1))
  then have "rest st = [x] @ rest s0" by simp
  then have c: "consumed st s0 = [x]" by (rule consumed_append)
  from starE[OF 2] obtain ws where w: "rest s1 = ws @ rest s2" "\<forall>x\<in>set ws. is_space x"
    by (metis not_ignoreCase(1))
  show ?thesis
  proof (rule that[of x ws])
    show "rest st = x # ws @ CHR '']'' # rest s'" using x 5(1) w(1) chrE[OF 3] by simp
    show "group s' 1 = [x]" using chrE[OF 3] starE[OF 2] 5(2) c
      by (metis group_hd not_ignoreCase(1))
  qed (use w in auto)
qed

lemma incompleteObject_match:
  assumes "s' \<in> set (ms incompleteObject no_flags st)"
  obtains ws1 g1 ws2 g2 g3 ws3 where
    "rest st = CHR ''{'' # ws1 @ dquote # g1 @ dquote # CHR '':'' # ws2 @ dquote # g2 @ dquote
                 # g3 @ ws3 @ CHR ''}'' # rest s'"
    "\<forall>x\<in>set ws1. is_space x" "\<forall>x\<in>set ws2. is_space x" "\<forall>x\<in>set ws3. is_space x"
    "\<forall>x\<in>set g3. x \<notin> set '',}''" "group s' 1 = g1" "group s' 2 = g2"
proof -
  from assms obtain s1 s2 s3 s4 s5 s6 s7 s8 s9 s10 s11 s12 where
    1: "s1 \<in> set (ms (chr CHR ''{'') no_flags st)" and
    2: "s2 \<in> set (ms (star (Cls False is_space)) no_flags s1)" and
    3: "s3 \<in> set (ms (chr dquote) no_flags s2)" and
    4: "s4 \<in> set (ms (Grp 1 (star (Cls True (\<lambda>x. x \<in> set [dquote])))) no_flags s3)" and
    5: "s5 \<in> set (ms (chr dquote) no_flags s4)" and
    6: "s6 \<in> set (ms (chr CHR '':'') no_flags s5)" and
    7: "s7 \<in> set (ms (star (Cls False is_space)) no_flags s6)" and
    8: "s8 \<in> set (ms (chr dquote) no_flags s7)" and
    9: "s9 \<in> set (ms (Grp 2 (star (Cls True (\<lambda>x. x \<in> set [dquote])))) no_flags s8)" and
    10: "s10 \<in> set (ms (chr dquote) no_flags s9)" and
    11: "s11 \<in> set (ms (Grp 3 (star (Cls True (\<lambda>x. x \<in> set '',}'')))) no_flags s10)" and
    12: "s12 \<in> set (ms (star (Cls False is_space)) no_flags s11)" and
    13: "s' \<in> set (ms (chr CHR ''}'') no_flags s12)"
    unfolding incompleteObject_def seqs_Cons seqs_Nil space_def none_of_def ms.simps(2,3)
    by (auto simp del: ms.simps)
  note nf = not_ignoreCase(1)
  from 4 obtain t4 where
    t4: "t4 \<in> set (ms (star (Cls True (\<lambda>x. x \<in> set [dquote]))) no_flags s3)"
    "rest s4 = rest t4" "caps s4 = (1, consumed s3 t4) # caps t4"
    by (rule GrpE)
  from 9 obtain t9 where
    t9: "t9 \<in> set (ms (star (Cls True (\<lambda>x. x \<in> set [dquote]))) no_flags s8)"
    "rest s9 = rest t9" "caps s9 = (2, consumed s8 t9) # caps t9"
    by (rule GrpE)
  from 11 obtain t11 where
    t11: "t11 \<in> set (ms (star (Cls True (\<lambda>x. x \<in> set '',}''))) no_flags s10)"
    "rest s11 = rest t11" "caps s11 = (3, consumed s10 t11) # caps t11"
    by (rule GrpE)
  from starE[OF 2 nf] obtain ws1 where w1: "rest s1 = ws1 @ rest s2" "\<forall>x\<in>set ws1. is_space x"
    by metis
  from starE[OF 7 nf] obtain ws2 where w2: "rest s6 = ws2 @ rest s7" "\<forall>x\<in>set ws2. is_space x"
    "caps s7 = caps s6"
    by metis
  from starE[OF 12 nf] obtain ws3 where w3: "rest s11 = ws3 @ rest s12" "\<forall>x\<in>set ws3. is_space x"
    "caps s12 = caps s11"
    by metis
  from starE[OF t4(1) nf] obtain g1 where g1: "rest s3 = g1 @ rest t4" by metis
  from starE[OF t9(1) nf] obtain g2 where g2: "rest s8 = g2 @ rest t9" by metis
  from starE[OF t11(1) nf] obtain g3 where g3: "rest s10 = g3 @ rest t11"
    "\<forall>x\<in>set g3. x \<notin> set '',}''" "caps t11 = caps s10"
    by metis
  have c1: "consumed s3 t4 = g1" using g1 by (rule consumed_append)
  have c2: "consumed s8 t9 = g2" using g2 by (rule consumed_append)
  note ch = chrE[OF 1 nf] chrE[OF 3 nf] chrE[OF 5 nf] chrE[OF 6 nf] chrE[OF 8 nf]
    chrE[OF 10 nf] chrE[OF 13 nf]
  have cp: "caps s' = (3, consumed s10 t11) # (2, g2) # (1, g1) # caps t4"
    using ch w2(3) w3(3) t4(3) t9(3) t11(3) g3(3) starE[OF t9(1) nf] c1 c2 by metis
  show ?thesis
  proof (rule that[of ws1 g1 ws2 g2 g3 ws3])
    show "rest st = CHR ''{'' # ws1 @ dquote # g1 @ dquote # CHR '':'' # ws2 @ dquote # g2 @ dquote
                 # g3 @ ws3 @ CHR ''}'' # rest s'"
      using ch w1(1) w2(1) w3(1) g1 g2 g3(1) t4(2) t9(2) t11(2) by simp
    show "group s' 1 = g1" "group s' 2 = g2" using cp by (simp_all add: group_def)
  qed (use w1 w2 w3 g3 in auto)
qed


lemma truncatedEllipsis_match:
  assumes "s' \<in> set (ms truncatedEllipsis no_flags st)"
  obtains ws g where "rest st = CHR '':'' # ws @ dquote # g @ ''...'' @ rest s'"
    "\<forall>x\<in>set ws. is_space x" "group s' 1 = g"
proof -
  from assms obtain s1 s2 s3 s4 where
    1: "s1 \<in> set (ms (chr CHR '':'') no_flags st)" and
    2: "s2 \<in> set (ms (star (Cls False is_space)) no_flags s1)" and
    3: "s3 \<in> set (ms (chr dquote) no_flags s2)" and
    4: "s4 \<in> set (ms (Grp 1 (Seq (star (Cls True (\<lambda>x. x \<in> set [dquote]))) (Cls False is_alpha)))
                    no_flags s3)" and
    5: "s' \<in> set (ms (lit ''...'') no_flags s4)"
    unfolding truncatedEllipsis_def seqs_Cons seqs_Nil space_def none_of_def ms.simps(2)
      ms.simps(3)[of "chr _"] ms.simps(3)[of "star _"] ms.simps(3)[of "Grp _ _"] ms.simps(3)[of "lit _"]
    by (auto simp del: ms.simps)
  note nf = not_ignoreCase(1)
  from 4 obtain t4 where
    t4: "t4 \<in> set (ms (Seq (star (Cls True (\<lambda>x. x \<in> set [dquote]))) (Cls False is_alpha)) no_flags s3)"
    "rest s4 = rest t4" "caps s4 = (1, consumed s3 t4) # caps t4"
    by (rule GrpE)
  from t4(1) obtain u where
    u: "u \<in> set (ms (star (Cls True (\<lambda>x. x \<in> set [dquote]))) no_flags s3)"
       "t4 \<in> set (ms (Cls False is_alpha) no_flags u)"
    by (rule SeqE)
  from starE[OF 2 nf] obtain ws where w: "rest s1 = ws @ rest s2" "\<forall>x\<in>set ws. is_space x"
    by metis
  from starE[OF u(1) nf] obtain xs where xs: "rest s3 = xs @ rest u" by metis
  from ClsE[OF u(2) nf] obtain a where a: "rest u = a # rest t4" by metis
  have "rest s3 = (xs @ [a]) @ rest t4" using xs a by simp
  then have c: "consumed s3 t4 = xs @ [a]" by (rule consumed_append)
  note l = litE[OF 5 nf]
  show ?thesis
  proof (rule that[of ws "xs @ [a]"])
    show "rest st = CHR '':'' # ws @ dquote # (xs @ [a]) @ ''...'' @ rest s'"
      using chrE[OF 1 nf] chrE[OF 3 nf] w(1) xs a t4(2) l by simp
    show "group s' 1 = xs @ [a]" using l t4(3) c by (simp add: group_def)
  qed (use w in auto)
qed

lemma truncatedString_match:
  assumes "s' \<in> set (ms truncatedString flag_m st)"
  obtains ws g ws2 where "rest st = CHR '':'' # ws @ dquote # g @ ws2 @ rest s'"
    "\<forall>x\<in>set ws. is_space x" "\<forall>x\<in>set ws2. is_space x" "group s' 1 = g"
proof -
  from assms obtain s1 s2 s3 s4 s5 where
    1: "s1 \<in> set (ms (chr CHR '':'') flag_m st)" and
    2: "s2 \<in> set (ms (star (Cls False is_space)) flag_m s1)" and
    3: "s3 \<in> set (ms (chr dquote) flag_m s2)" and
    4: "s4 \<in> set (ms (Grp 1 (star (Cls True (\<lambda>x. x \<in> set [dquote])))) flag_m s3)" and
    5: "s5 \<in> set (ms (star (Cls False is_space)) flag_m s4)" and
    6: "s' \<in> set (ms Eol flag_m s5)"
    unfolding truncatedString_def seqs_Cons seqs_Nil space_def none_of_def ms.simps(2,3)
    by (auto simp del: ms.simps)
  note nf = not_ignoreCase(2)
  from 4 obtain t4 where
    t4: "t4 \<in> set (ms (star (Cls True (\<lambda>x. x \<in> set [dquote]))) flag_m s3)"
    "rest s4 = rest t4" "caps s4 = (1, consumed s3 t4) # caps t4"
    by (rule GrpE)
  from starE[OF 2 nf] obtain ws where w: "rest s1 = ws @ rest s2" "\<forall>x\<in>set ws. is_space x"
    by metis
  from starE[OF 5 nf] obtain ws2 where w2: "rest s4 = ws2 @ rest s5" "\<forall>x\<in>set ws2. is_space x"
    "caps s5 = caps s4"
    by metis
  from starE[OF t4(1) nf] obtain g where g: "rest s3 = g @ rest t4" by metis
  have c: "consumed s3 t4 = g" using g by (rule consumed_append)
  have e: "s' = s5" using 6 by (rule EolE)
  show ?thesis
  proof (rule that[of ws g ws2])
    show "rest st = CHR '':'' # ws @ dquote # g @ ws2 @ rest s'"
      using chrE[OF 1 nf] chrE[OF 3 nf] w(1) w2(1) g t4(2) e by simp
    show "group s' 1 = g" using e w2(3) t4(3) c by (simp add: group_def)
  qed (use w w2 in auto)
qed

lemma unescapedQuotes_match:
  assumes "s' \<in> set (ms (unescapedQuotes lead) no_flags st)"
  obtains g1 g2 g3 where
    "rest st = lead @ '': '' @ dquote # g1 @ dquote # g2 @ dquote # g3 @ dquote # CHR '','' # rest s'"
    "group s' 1 = g1" "group s' 2 = g2" "group s' 3 = g3"
proof -
  from assms obtain s1 s2 s3 s4 s5 s6 s7 s8 s9 where
    1: "s1 \<in> set (ms (lit lead) no_flags st)" and
    2: "s2 \<in> set (ms (lit '': '') no_flags s1)" and
    3: "s3 \<in> set (ms (chr dquote) no_flags s2)" and
    4: "s4 \<in> set (ms (Grp 1 (star (Cls True (\<lambda>x. x \<in> set [dquote])))) no_flags s3)" and
    5: "s5 \<in> set (ms (chr dquote) no_flags s4)" and
    6: "s6 \<in> set (ms (Grp 2 (star (Cls True (\<lambda>x. x \<in> set (dquote # '',}]''))))) no_flags s5)" and
    7: "s7 \<in> set (ms (chr dquote) no_flags s6)" and
    8: "s8 \<in> set (ms (Grp 3 (star (Cls True (\<lambda>x. x \<in> set (dquote # '',}]''))))) no_flags s7)" and
    9: "s9 \<in> set (ms (chr dquote) no_flags s8)" and
    10: "s' \<in> set (ms (chr CHR '','') no_flags s9)"
    unfolding unescapedQuotes_def seqs_Cons seqs_Nil none_of_def ms.simps(2)
      ms.simps(3)[of "chr _"] ms.simps(3)[of "Grp _ _"] ms.simps(3)[of "lit _"]
    by (auto simp del: ms.simps)
  note nf = not_ignoreCase(1)
  from 4 obtain t4 where
    t4: "t4 \<in> set (ms (star (Cls True (\<lambda>x. x \<in> set [dquote]))) no_flags s3)"
    "rest s4 = rest t4" "caps s4 = (1, consumed s3 t4) # caps t4"
    by (rule GrpE)
  from 6 obtain t6 where
    t6: "t6 \<in> set (ms (star (Cls True (\<lambda>x. x \<in> set (dquote # '',}]'')))) no_flags s5)"
    "rest s6 = rest t6" "caps s6 = (2, consumed s5 t6) # caps t6"
    by (rule GrpE)
  from 8 obtain t8 where
    t8: "t8 \<in> set (ms (star (Cls True (\<lambda>x. x \<in> set (dquote # '',}]'')))) no_flags s7)"
    "rest s8 = rest t8" "caps s8 = (3, consumed s7 t8) # caps t8"
    by (rule GrpE)
  from starE[OF t4(1) nf] obtain g1 where g1: "rest s3 = g1 @ rest t4" by metis
  from starE[OF t6(1) nf] obtain g2 where g2: "rest s5 = g2 @ rest t6" "caps t6 = caps s5" by metis
  from starE[OF t8(1) nf] obtain g3 where g3: "rest s7 = g3 @ rest t8" "caps t8 = caps s7" by metis
  have c1: "consumed s3 t4 = g1" using g1 by (rule consumed_append)
  have c2: "consumed s5 t6 = g2" using g2(1) by (rule consumed_append)
  have c3: "consumed s7 t8 = g3" using g3(1) by (rule consumed_append)
  note ch = chrE[OF 3 nf] chrE[OF 5 nf] chrE[OF 7 nf] chrE[OF 9 nf] chrE[OF 10 nf]
  have cp: "caps s' = (3, g3) # (2, g2) # (1, g1) # caps t4"
    using ch t4(3) t6(3) t8(3) g2(2) g3(2) c1 c2 c3 by metis
  show ?thesis
  proof (rule that[of g1 g2 g3])
    show "rest st = lead @ '': '' @ dquote # g1 @ dquote # g2 @ dquote # g3 @ dquote # CHR '','' # rest s'"
      using ch litE[OF 1 nf] litE[OF 2 nf] g1 g2(1) g3(1) t4(2) t6(2) t8(2) by simp
    show "group s' 1 = g1" "group s' 2 = g2" "group s' 3 = g3" using cp by (simp_all add: group_def)
  qed
qed

lemma commaRun_match:
  assumes "s' \<in> set (ms commaRun no_flags st)"
  obtains n where "rest st = replicate (Suc n) CHR '','' @ rest s'"
proof -
  from assms have "s' \<in> set (ms (plus (Cls False (\<lambda>x. x = CHR '',''))) no_flags st)"
    unfolding commaRun_def chr_def .
  from plusE[OF this not_ignoreCase(1)] obtain xs where
    xs: "rest st = xs @ rest s'" "\<forall>x\<in>set xs. x = CHR '',''" "xs \<noteq> []"
    by metis
  have "xs = replicate (length xs) CHR '',''" using xs(2) by (simp add: replicate_length_same)
  moreover obtain n where "length xs = Suc n" using xs(3) by (cases xs) auto
  ultimately show ?thesis using that[of n] xs(1) by metis
qed

lemma trailingComma_match:
  assumes "s' \<in> set (ms trailingComma no_flags st)"
  obtains ws x where "rest st = CHR '','' # ws @ x # rest s'" "\<forall>x\<in>set ws. is_space x"
    "x = CHR ''}'' \<or> x = CHR '']''" "group s' 1 = ws @ [x]"
proof -
  note nf = not_ignoreCase(1)
  from assms obtain s1 where
    1: "s1 \<in> set (ms (chr CHR '','') no_flags st)" and
    2: "s' \<in> set (ms (Grp 1 (Seq (star (Cls False is_space)) (Cls False (\<lambda>x. x \<in> set ''}]''))))
                    no_flags s1)"
    unfolding trailingComma_def space_def one_of_def by (rule SeqE)
  from 2 obtain t where
    t: "t \<in> set (ms (Seq (star (Cls False is_space)) (Cls False (\<lambda>x. x \<in> set ''}]''))) no_flags s1)"
    "rest s' = rest t" "caps s' = (1, consumed s1 t) # caps t"
    by (rule GrpE)
  from t(1) obtain u where
    u: "u \<in> set (ms (star (Cls False is_space)) no_flags s1)"
       "t \<in> set (ms (Cls False (\<lambda>x. x \<in> set ''}]'')) no_flags u)"
    by (rule SeqE)
  from starE[OF u(1) nf] obtain ws where w: "rest s1 = ws @ rest u" "\<forall>x\<in>set ws. is_space x"
    by metis
  from ClsE[OF u(2) nf] obtain x where x: "rest u = x # rest t" "x \<in> set ''}]''" by metis
  have "rest s1 = (ws @ [x]) @ rest t" using w(1) x(1) by simp
  then have c: "consumed s1 t = ws @ [x]" by (rule consumed_append)
  show ?thesis
  proof (rule that[of ws x])
    show "rest st = CHR '','' # ws @ x # rest s'" using chrE[OF 1 nf] w(1) x(1) t(2) by simp
    show "group s' 1 = ws @ [x]" using t(3) c by (simp add: group_def)
    show "x = CHR ''}'' \<or> x = CHR '']''" using x(2) by simp
  qed (use w in auto)
qed

subsection \<open>Braces are neither added nor lost by the replacements\<close>

lemma brace_not_space [simp]: "\<not> is_space CHR ''{''" "\<not> is_space CHR ''}''"
  by (simp_all add: is_space_def)

lemma count_spaces:
  assumes "\<forall>x\<in>set ws. is_space x" "\<not> is_space c"
  shows "count_list ws c = 0"
  using assms by (metis count_notin)

lemma rest_init [simp]: "rest (init s) = s"
  by (simp add: init_def)

lemma replace_all_count:
  assumes "\<And>st st'. st' \<in> set (ms r fl st) \<Longrightarrow>
                rest st = consumed st st' @ rest st'
                \<and> count_list (f (consumed st st') (group st')) c = count_list (consumed st st') c"
  shows "count_list (replace_all r fl f s) c = count_list s c"
  unfolding replace_all_def using replace_loop_count[of r fl f c True "init s"] assms by simp

lemma adjacentObjects_count:
  assumes "c = CHR ''{'' \<or> c = CHR ''}''"
  shows "count_list (replace_all adjacentObjects no_flags (\<lambda>m g. ''},{'') s) c = count_list s c"
proof (rule replace_all_count)
  fix st st' assume "st' \<in> set (ms adjacentObjects no_flags st)"
  then obtain ws where w: "rest st = CHR ''}'' # ws @ CHR ''{'' # rest st'" "\<forall>x\<in>set ws. is_space x"
    by (rule adjacentObjects_match)
  have "rest st = (CHR ''}'' # ws @ ''{'') @ rest st'" using w(1) by simp
  then have c: "consumed st st' = CHR ''}'' # ws @ ''{''" by (rule consumed_append)
  have "count_list ws c = 0" using w(2) assms by (intro count_spaces) auto
  then show "rest st = consumed st st' @ rest st'
     \<and> count_list ''},{'' c = count_list (consumed st st') c"
    using c w(1) assms by auto
qed


lemma dquote_not_brace [simp]:
  "dquote \<noteq> CHR ''{''" "dquote \<noteq> CHR ''}''" "backslash \<noteq> CHR ''{''" "backslash \<noteq> CHR ''}''"
  by (simp_all add: dquote_def backslash_def)

lemma adjacentStrings_count:
  assumes "c = CHR ''{'' \<or> c = CHR ''}''"
  shows "count_list (replace_all adjacentStrings no_flags
           (\<lambda>m g. [dquote] @ '', '' @ quoted (g 1)) s) c = count_list s c"
proof (rule replace_all_count)
  fix st st' assume "st' \<in> set (ms adjacentStrings no_flags st)"
  then obtain ws g where w: "rest st = dquote # ws @ dquote # g @ dquote # rest st'"
    "\<forall>x\<in>set ws. is_space x" "group st' 1 = g"
    by (rule adjacentStrings_match)
  have "rest st = (dquote # ws @ dquote # g @ [dquote]) @ rest st'" using w(1) by simp
  then have c: "consumed st st' = dquote # ws @ dquote # g @ [dquote]" by (rule consumed_append)
  have "count_list ws c = 0" using w(2) assms by (intro count_spaces) auto
  then show "rest st = consumed st st' @ rest st'
     \<and> count_list ([dquote] @ '', '' @ quoted (group st' 1)) c = count_list (consumed st st') c"
    using c w(1,3) assms by (auto simp: quoted_def)
qed

lemma spaceBeforeBracket_count:
  assumes "c = CHR ''{'' \<or> c = CHR ''}''"
  shows "count_list (replace_all spaceBeforeBracket no_flags (\<lambda>m g. g 1 @ '']'') s) c
           = count_list s c"
proof (rule replace_all_count)
  fix st st' assume "st' \<in> set (ms spaceBeforeBracket no_flags st)"
  then obtain x ws where w: "rest st = x # ws @ CHR '']'' # rest st'"
    "\<forall>x\<in>set ws. is_space x" "group st' 1 = [x]"
    by (rule spaceBeforeBracket_match)
  have "rest st = (x # ws @ '']'') @ rest st'" using w(1) by simp
  then have c: "consumed st st' = x # ws @ '']''" by (rule consumed_append)
  have "count_list ws c = 0" using w(2) assms by (intro count_spaces) auto
  then show "rest st = consumed st st' @ rest st'
     \<and> count_list (group st' 1 @ '']'') c = count_list (consumed st st') c"
    using c w(1,3) assms by auto
qed

lemma incompleteObject_count:
  "count_list (replace_all incompleteObject no_flags
       (\<lambda>m g. ''{'' @ quoted (g 1) @ '': '' @ quoted (g 2) @ ''}'') s) CHR ''}''
     = count_list s CHR ''}''"
proof (rule replace_all_count)
  fix st st' assume "st' \<in> set (ms incompleteObject no_flags st)"
  then obtain ws1 g1 ws2 g2 g3 ws3 where w:
    "rest st = CHR ''{'' # ws1 @ dquote # g1 @ dquote # CHR '':'' # ws2 @ dquote # g2 @ dquote
                 # g3 @ ws3 @ CHR ''}'' # rest st'"
    "\<forall>x\<in>set ws1. is_space x" "\<forall>x\<in>set ws2. is_space x" "\<forall>x\<in>set ws3. is_space x"
    "\<forall>x\<in>set g3. x \<notin> set '',}''" "group st' 1 = g1" "group st' 2 = g2"
    by (rule incompleteObject_match)
  have "rest st = (CHR ''{'' # ws1 @ dquote # g1 @ dquote # CHR '':'' # ws2 @ dquote # g2 @ dquote
                 # g3 @ ws3 @ ''}'') @ rest st'" using w(1) by simp
  then have c: "consumed st st' = CHR ''{'' # ws1 @ dquote # g1 @ dquote # CHR '':'' # ws2 @ dquote
                 # g2 @ dquote # g3 @ ws3 @ ''}''" by (rule consumed_append)
  have z: "count_list ws1 CHR ''}'' = 0" "count_list ws2 CHR ''}'' = 0" "count_list ws3 CHR ''}'' = 0"
    using w(2,3,4) by (auto intro: count_spaces)
  have "CHR ''}'' \<notin> set g3" using w(5) by auto
  then have z3: "count_list g3 CHR ''}'' = 0" by (rule count_notin)
  show "rest st = consumed st st' @ rest st'
     \<and> count_list (''{'' @ quoted (group st' 1) @ '': '' @ quoted (group st' 2) @ ''}'') CHR ''}''
         = count_list (consumed st st') CHR ''}''"
    using c w(1,6,7) z z3 by (simp add: quoted_def)
qed

lemma incompleteObject_needs_brace:
  assumes "CHR ''}'' \<notin> set s"
  shows "replace_all incompleteObject no_flags f s = s"
proof -
  have "replace_loop incompleteObject no_flags True f (init s) = rest (init s)"
  proof (rule replace_loop_no_match)
    fix st' :: mstate assume sub: "set (rest st') \<subseteq> set (rest (init s))"
    show "ms incompleteObject no_flags st' = []"
    proof (rule ccontr)
      assume "ms incompleteObject no_flags st' \<noteq> []"
      then obtain s' where "s' \<in> set (ms incompleteObject no_flags st')"
        by (cases "ms incompleteObject no_flags st'") auto
      then obtain ws1 g1 ws2 g2 g3 ws3 where
        "rest st' = CHR ''{'' # ws1 @ dquote # g1 @ dquote # CHR '':'' # ws2 @ dquote # g2 @ dquote
                 # g3 @ ws3 @ CHR ''}'' # rest s'"
        by (rule incompleteObject_match)
      then have "CHR ''}'' \<in> set (rest st')" by simp
      then show False using sub assms by auto
    qed
  qed
  then show ?thesis by (simp add: replace_all_def)
qed

lemma truncatedEllipsis_count:
  assumes "c = CHR ''{'' \<or> c = CHR ''}''"
  shows "count_list (replace_all truncatedEllipsis no_flags (\<lambda>m g. '': '' @ quoted (g 1)) s) c
           = count_list s c"
proof (rule replace_all_count)
  fix st st' assume "st' \<in> set (ms truncatedEllipsis no_flags st)"
  then obtain ws g where w: "rest st = CHR '':'' # ws @ dquote # g @ ''...'' @ rest st'"
    "\<forall>x\<in>set ws. is_space x" "group st' 1 = g"
    by (rule truncatedEllipsis_match)
  have "rest st = (CHR '':'' # ws @ dquote # g @ ''...'') @ rest st'" using w(1) by simp
  then have c: "consumed st st' = CHR '':'' # ws @ dquote # g @ ''...''" by (rule consumed_append)
  have "count_list ws c = 0" using w(2) assms by (intro count_spaces) auto
  then show "rest st = consumed st st' @ rest st'
     \<and> count_list ('': '' @ quoted (group st' 1)) c = count_list (consumed st st') c"
    using c w(1,3) assms by (auto simp: quoted_def)
qed

lemma truncatedString_count:
  assumes "c = CHR ''{'' \<or> c = CHR ''}''"
  shows "count_list (replace_all truncatedString flag_m (\<lambda>m g. '': '' @ quoted (g 1)) s) c
           = count_list s c"
proof (rule replace_all_count)
  fix st st' assume "st' \<in> set (ms truncatedString flag_m st)"
  then obtain ws g ws2 where w: "rest st = CHR '':'' # ws @ dquote # g @ ws2 @ rest st'"
    "\<forall>x\<in>set ws. is_space x" "\<forall>x\<in>set ws2. is_space x" "group st' 1 = g"
    by (rule truncatedString_match)
  have "rest st = (CHR '':'' # ws @ dquote # g @ ws2) @ rest st'" using w(1) by simp
  then have c: "consumed st st' = CHR '':'' # ws @ dquote # g @ ws2" by (rule consumed_append)
  have "count_list ws c = 0" "count_list ws2 c = 0" using w(2,3) assms by (auto intro!: count_spaces)
  then show "rest st = consumed st st' @ rest st'
     \<and> count_list ('': '' @ quoted (group st' 1)) c = count_list (consumed st st') c"
    using c w(1,4) assms by (auto simp: quoted_def)
qed

lemma unescapedQuotes_count:
  assumes "c = CHR ''{'' \<or> c = CHR ''}''"
  shows "count_list (replace_all (unescapedQuotes [dquote]) no_flags (escapeInnerQuotes [dquote]) s) c
           = count_list s c"
proof (rule replace_all_count)
  fix st st' assume "st' \<in> set (ms (unescapedQuotes [dquote]) no_flags st)"
  then obtain g1 g2 g3 where w:
    "rest st = [dquote] @ '': '' @ dquote # g1 @ dquote # g2 @ dquote # g3 @ dquote # CHR '','' # rest st'"
    "group st' 1 = g1" "group st' 2 = g2" "group st' 3 = g3"
    by (rule unescapedQuotes_match)
  have "rest st = ([dquote] @ '': '' @ dquote # g1 @ dquote # g2 @ dquote # g3 @ [dquote, CHR '','']) @ rest st'"
    using w(1) by simp
  then have c: "consumed st st' = [dquote] @ '': '' @ dquote # g1 @ dquote # g2 @ dquote # g3 @ [dquote, CHR '','']"
    by (rule consumed_append)
  show "rest st = consumed st st' @ rest st'
     \<and> count_list (escapeInnerQuotes [dquote] (consumed st st') (group st')) c
         = count_list (consumed st st') c"
    using c w assms by (auto simp: escapeInnerQuotes_def)
qed

lemma commaRun_count:
  assumes "c \<noteq> CHR '',''"
  shows "count_list (replace_all commaRun no_flags (\<lambda>m g. '','') s) c = count_list s c"
proof (rule replace_all_count)
  fix st st' assume "st' \<in> set (ms commaRun no_flags st)"
  then obtain n where w: "rest st = replicate (Suc n) CHR '','' @ rest st'"
    by (rule commaRun_match)
  then have c: "consumed st st' = replicate (Suc n) CHR '',''" by (rule consumed_append)
  have "c \<notin> set (replicate (Suc n) CHR '','')" using assms by auto
  then have "count_list (replicate (Suc n) CHR '','') c = 0" by (rule count_notin)
  then show "rest st = consumed st st' @ rest st'
     \<and> count_list '','' c = count_list (consumed st st') c"
    using c w assms by simp
qed

lemma trailingComma_count:
  assumes "c \<noteq> CHR '',''"
  shows "count_list (replace_all trailingComma no_flags (\<lambda>m g. g 1) s) c = count_list s c"
proof (rule replace_all_count)
  fix st st' assume "st' \<in> set (ms trailingComma no_flags st)"
  then obtain ws x where w: "rest st = CHR '','' # ws @ x # rest st'" "group st' 1 = ws @ [x]"
    by (rule trailingComma_match)
  have "rest st = (CHR '','' # ws @ [x]) @ rest st'" using w(1) by simp
  then have c: "consumed st st' = CHR '','' # ws @ [x]" by (rule consumed_append)
  show "rest st = consumed st st' @ rest st'
     \<and> count_list (group st' 1) c = count_list (consumed st st') c"
    using c w assms by simp
qed

subsection \<open>The closing braces of the array-element repair\<close>

lemma replace_all_tail_braces:
  assumes "\<And>st st'. caps st = [] \<Longrightarrow> st' \<in> set (ms r fl st) \<Longrightarrow>
      (\<exists>ma. rest st = ma @ rest st' \<and> ma \<noteq> []
         \<and> ((CHR ''}'' \<notin> set ma \<and> CHR ''}'' \<notin> set (f ma (group st')))
             \<or> (\<exists>b b'. ma = b @ ''}'' \<and> CHR ''}'' \<notin> set b
                    \<and> f ma (group st') = b' @ ''}'' \<and> CHR ''}'' \<notin> set b'
                    \<and> (b = [] \<longrightarrow> b' = []))))"
    and "CHR ''}'' \<notin> set u"
  shows "\<exists>body. replace_all r fl f (u @ replicate n CHR ''}'') = body @ replicate n CHR ''}''
           \<and> CHR ''}'' \<notin> set body"
proof -
  have "rest (init (u @ replicate n CHR ''}'')) = u @ replicate n CHR ''}''" by simp
  from replace_loop_tail_braces[of r fl f, OF assms(1) this assms(2)]
  show ?thesis unfolding replace_all_def by blast
qed

lemma commaRun_tail_braces:
  assumes "CHR ''}'' \<notin> set u"
  shows "\<exists>body. replace_all commaRun no_flags (\<lambda>m g. '','') (u @ replicate n CHR ''}'')
                  = body @ replicate n CHR ''}'' \<and> CHR ''}'' \<notin> set body"
proof (rule replace_all_tail_braces[OF _ assms])
  fix st st' assume "st' \<in> set (ms commaRun no_flags st)"
  then obtain k where w: "rest st = replicate (Suc k) CHR '','' @ rest st'"
    by (rule commaRun_match)
  have "CHR ''}'' \<notin> set (replicate (Suc k) CHR '','')" by auto
  then show "\<exists>ma. rest st = ma @ rest st' \<and> ma \<noteq> []
         \<and> ((CHR ''}'' \<notin> set ma \<and> CHR ''}'' \<notin> set '','')
             \<or> (\<exists>b b'. ma = b @ ''}'' \<and> CHR ''}'' \<notin> set b
                    \<and> '','' = b' @ ''}'' \<and> CHR ''}'' \<notin> set b'
                    \<and> (b = [] \<longrightarrow> b' = [])))"
    using w by (intro exI[of _ "replicate (Suc k) CHR '',''"]) simp
qed

lemma spaces_no_brace:
  assumes "\<forall>x\<in>set ws. is_space x" shows "CHR ''}'' \<notin> set ws"
  using assms brace_not_space(2) by blast

lemma trailingComma_tail_braces:
  assumes "CHR ''}'' \<notin> set u"
  shows "\<exists>body. replace_all trailingComma no_flags (\<lambda>m g. g 1) (u @ replicate n CHR ''}'')
                  = body @ replicate n CHR ''}'' \<and> CHR ''}'' \<notin> set body"
proof (rule replace_all_tail_braces[OF _ assms])
  fix st st' assume "st' \<in> set (ms trailingComma no_flags st)"
  then obtain ws x where w: "rest st = CHR '','' # ws @ x # rest st'" "\<forall>x\<in>set ws. is_space x"
    "x = CHR ''}'' \<or> x = CHR '']''" "group st' 1 = ws @ [x]"
    by (rule trailingComma_match)
  have nb: "CHR ''}'' \<notin> set ws" using w(2) by (rule spaces_no_brace)
  let ?ma = "CHR '','' # ws @ [x]"
  have r: "rest st = ?ma @ rest st'" using w(1) by simp
  from w(3) have "(CHR ''}'' \<notin> set ?ma \<and> CHR ''}'' \<notin> set (group st' 1))
             \<or> (\<exists>b b'. ?ma = b @ ''}'' \<and> CHR ''}'' \<notin> set b
                    \<and> group st' 1 = b' @ ''}'' \<and> CHR ''}'' \<notin> set b'
                    \<and> (b = [] \<longrightarrow> b' = []))"
  proof
    assume x: "x = CHR ''}''"
    have "?ma = (CHR '','' # ws) @ ''}'' \<and> CHR ''}'' \<notin> set (CHR '','' # ws)
          \<and> group st' 1 = ws @ ''}'' \<and> CHR ''}'' \<notin> set ws \<and> (CHR '','' # ws = [] \<longrightarrow> ws = [])"
      using x nb w(4) by simp
    then show ?thesis by blast
  next
    assume x: "x = CHR '']''"
    then have "CHR ''}'' \<notin> set ?ma \<and> CHR ''}'' \<notin> set (group st' 1)" using nb w(4) by simp
    then show ?thesis by blast
  qed
  then show "\<exists>ma. rest st = ma @ rest st' \<and> ma \<noteq> []
         \<and> ((CHR ''}'' \<notin> set ma \<and> CHR ''}'' \<notin> set (group st' 1))
             \<or> (\<exists>b b'. ma = b @ ''}'' \<and> CHR ''}'' \<notin> set b
                    \<and> group st' 1 = b' @ ''}'' \<and> CHR ''}'' \<notin> set b'
                    \<and> (b = [] \<longrightarrow> b' = [])))"
    using r by (intro exI[of _ ?ma]) simp
qed

lemma fixArrayElementSeparation_split:
  "fixArrayElementSeparation s =
     replace_all trailingComma no_flags (\<lambda>m g. g 1)
       (replace_all commaRun no_flags (\<lambda>m g. '','')
          (closeTruncatedObject (before_closing s)))"
  by (simp only: fixArrayElementSeparation_def before_closing_def Let_def)

lemmas closing_kept =
  adjacentObjects_count[OF disjI2[OF refl]] adjacentStrings_count[OF disjI2[OF refl]]
  spaceBeforeBracket_count[OF disjI2[OF refl]] incompleteObject_count
  truncatedEllipsis_count[OF disjI2[OF refl]] truncatedString_count[OF disjI2[OF refl]]
  unescapedQuotes_count[OF disjI2[OF refl]]

lemmas opening_kept =
  adjacentObjects_count[OF disjI1[OF refl]] adjacentStrings_count[OF disjI1[OF refl]]
  spaceBeforeBracket_count[OF disjI1[OF refl]]
  truncatedEllipsis_count[OF disjI1[OF refl]] truncatedString_count[OF disjI1[OF refl]]
  unescapedQuotes_count[OF disjI1[OF refl]]

lemma before_closing_closing:
  "count_list (before_closing s) CHR ''}'' = count_list s CHR ''}''"
  by (simp only: before_closing_def Let_def closing_kept)

lemma before_closing_opening:
  assumes "CHR ''}'' \<notin> set s"
  shows "count_list (before_closing s) CHR ''{'' = count_list s CHR ''{''"
proof -
  let ?s3 = "replace_all spaceBeforeBracket no_flags (\<lambda>m g. g 1 @ '']'')
               (replace_all adjacentStrings no_flags (\<lambda>m g. [dquote] @ '', '' @ quoted (g 1))
                  (replace_all adjacentObjects no_flags (\<lambda>m g. ''},{'') s))"
  have "count_list ?s3 CHR ''}'' = count_list s CHR ''}''"
    by (simp only: closing_kept)
  moreover have "count_list s CHR ''}'' = 0" using assms by (rule count_notin)
  ultimately have "count_list ?s3 CHR ''}'' = 0" by (rule trans)
  then have "CHR ''}'' \<notin> set ?s3" by (rule iffD1[OF count_list_0_iff])
  then have e: "replace_all incompleteObject no_flags
                    (\<lambda>m g. ''{'' @ quoted (g 1) @ '': '' @ quoted (g 2) @ ''}'') ?s3 = ?s3"
    by (rule incompleteObject_needs_brace)
  show ?thesis
    by (simp only: before_closing_def Let_def e opening_kept)
qed

lemma closing_count_kept:
  "count_list (fixArrayElementSeparation s) CHR ''}'' =
     count_list (closeTruncatedObject (before_closing s)) CHR ''}''"
proof -
  have c: "CHR ''}'' \<noteq> CHR '',''" by simp
  show ?thesis
    by (simp only: fixArrayElementSeparation_split trailingComma_count[OF c] commaRun_count[OF c])
qed

lemma fixArrayElementSeparation_tail:
  assumes "CHR ''}'' \<notin> set s"
  shows "\<exists>body. fixArrayElementSeparation s = body @ replicate (count_list s CHR ''{'') CHR ''}''
           \<and> CHR ''}'' \<notin> set body"
proof -
  let ?n = "count_list s CHR ''{''"
  let ?b = "before_closing s"
  have "count_list ?b CHR ''}'' = 0" using assms by (simp add: before_closing_closing)
  then have nb: "CHR ''}'' \<notin> set ?b" by (simp add: count_list_0_iff)
  have n: "count_list ?b CHR ''{'' = ?n" using assms by (rule before_closing_opening)
  have "CHR ''{'' \<notin> set ?b \<Longrightarrow> ?n = 0" using n by (metis count_notin)
  then have c: "closeTruncatedObject ?b = ?b @ replicate ?n CHR ''}''"
    unfolding closeTruncatedObject_eq using nb n by auto
  from commaRun_tail_braces[OF nb, of ?n] obtain b1 where
    b1: "replace_all commaRun no_flags (\<lambda>m g. '','') (?b @ replicate ?n CHR ''}'')
           = b1 @ replicate ?n CHR ''}''" "CHR ''}'' \<notin> set b1"
    by blast
  from trailingComma_tail_braces[OF b1(2), of ?n] obtain b2 where
    b2: "replace_all trailingComma no_flags (\<lambda>m g. g 1) (b1 @ replicate ?n CHR ''}'')
           = b2 @ replicate ?n CHR ''}''" "CHR ''}'' \<notin> set b2"
    by blast
  have "fixArrayElementSeparation s = b2 @ replicate ?n CHR ''}''"
    by (simp only: fixArrayElementSeparation_split c b1(1) b2(1))
  then show ?thesis using b2(2) by blast
qed

lemma filter_tail:
  assumes "t = body @ replicate n c" "c \<notin> set body"
  shows "filter (\<lambda>x. x \<noteq> c) t = body"
proof -
  have "filter (\<lambda>x. x \<noteq> c) body = body" using assms(2) by (induction body) auto
  then show ?thesis using assms(1) by simp
qed

lemma blank_text_rejected:
  assumes "generateFn s prompt = (Resolves t reply, s')"
    and "int t < or_default (timeout options) RESPONSE_TIMEOUT"
    and "\<forall>c\<in>set reply. is_space c"
  shows "generateWithCompletion generateFn prompt options attempt (s, tr)
           = (Inl (ErrorObj ''Model returned empty response''), (s', tr @ [Called prompt]))"
  using assms trim_blank[OF assms(3)]
  by (subst generateWithCompletion.simps) (simp add: race_def Let_def)





text \<open>
  Claim C7, as amended. When the capability resolves within the timeout window with a
  reply that is neither empty nor whitespace-only and in which an issue is detected, and
  the attempts are used up (\<open>attempt \<ge> maxRetries\<close>, as with \<open>maxRetries = 1\<close> on the first
  attempt), \<open>generateWithCompletion\<close> returns that reply unchanged: the capability is called
  once and no continuation is attempted.
\<close>

theorem issue_text_returned_when_retries_exhausted:
  assumes "generateFn s prompt = (Resolves t reply, s')"
    and "int t < or_default (timeout options) RESPONSE_TIMEOUT"
    and "trim reply \<noteq> []"
    and "hasIssue (detectResponseIssues reply)"
    and "or_default (maxRetries options) MAX_RETRIES \<le> attempt"
  shows "generateWithCompletion generateFn prompt options attempt (s, tr)
           = (Inr reply, (s', tr @ [Called prompt]))"
proof -
  have "reply \<noteq> []" using assms(3) by (auto simp: trim_def)
  then show ?thesis using assms
    by (subst generateWithCompletion.simps) (simp add: race_def Let_def)
qed

theorem issue_text_returned_witness:
  "generateWithCompletion (\<lambda>s p. (Resolves 40 ''{'', Suc s)) ''List the facts as JSON''
       \<lparr>maxRetries = Some 1, timeout = None, continuationPrompt = None\<rparr> 1 (0, [])
     = (Inr ''{'', (1, [Called ''List the facts as JSON'']))"
proof -
  have "hasIssue (detectResponseIssues ''{'')"
    by code_simp
  then show ?thesis
    using issue_text_returned_when_retries_exhausted
            [where generateFn = "\<lambda>s p. (Resolves 40 ''{'', Suc s)" and s = 0
               and prompt = "''List the facts as JSON''" and t = 40 and reply = "''{''"
               and options = "\<lparr>maxRetries = Some 1, timeout = None, continuationPrompt = None\<rparr>"
               and attempt = 1 and tr = "[]"]
    by (simp add: or_default_def RESPONSE_TIMEOUT_def trim_def is_space_def)
qed

text \<open>
  The claim as stated speaks of every non-empty reply with a detected issue. A reply of
  101 spaces is non-empty and is reported as ending abruptly, yet the controller
  rejects it as an empty response.
\<close>

theorem issue_text_returned_counterexample:
  "replicate 101 CHR '' '' \<noteq> []
   \<and> hasIssue (detectResponseIssues (replicate 101 CHR '' ''))
   \<and> generateWithCompletion (\<lambda>s p. (Resolves 40 (replicate 101 CHR '' ''), Suc s)) ''Answer''
         \<lparr>maxRetries = Some 1, timeout = None, continuationPrompt = None\<rparr> 1 (0, [])
       = (Inl (ErrorObj ''Model returned empty response''), (1, [Called ''Answer'']))"
proof -
  have a: "hasIssue (detectResponseIssues (replicate 101 CHR '' ''))"
    by code_simp
  have b: "generateWithCompletion (\<lambda>s p. (Resolves 40 (replicate 101 CHR '' ''), Suc s)) ''Answer''
         \<lparr>maxRetries = Some 1, timeout = None, continuationPrompt = None\<rparr> 1 (0, [])
       = (Inl (ErrorObj ''Model returned empty response''), (1, [Called ''Answer'']))"
    using blank_text_rejected
            [where generateFn = "\<lambda>s p. (Resolves 40 (replicate 101 CHR '' ''), Suc s)" and s = 0
               and prompt = "''Answer''" and t = 40 and reply = "replicate 101 CHR '' ''"
               and options = "\<lparr>maxRetries = Some 1, timeout = None, continuationPrompt = None\<rparr>"
               and attempt = 1 and tr = "[]"]
    by (simp add: or_default_def RESPONSE_TIMEOUT_def is_space_def)
  show ?thesis using a b by simp
qed

text \<open>
  Claim C8, as amended. When the capability resolves within the timeout window with a
  reply that is empty or whitespace-only, \<open>generateWithCompletion\<close> rejects with the error
  "Model returned empty response" after that single call, whatever the attempt number
  and the options are: the message matches none of the retry substrings.
\<close>

theorem empty_response_rejected_without_retry:
  assumes "generateFn s prompt = (Resolves t reply, s')"
    and "int t < or_default (timeout options) RESPONSE_TIMEOUT"
    and "\<forall>c\<in>set reply. is_space c"
  shows "generateWithCompletion generateFn prompt options attempt (s, tr)
           = (Inl (ErrorObj ''Model returned empty response''), (s', tr @ [Called prompt]))
         \<and> \<not> str_includes ''Model returned empty response'' ''Invalid JSON response''
         \<and> \<not> str_includes ''Model returned empty response'' ''Ollama API rejected response''
         \<and> \<not> str_includes ''Model returned empty response'' (''done'' @ [CHR 0x22] @ '': false'')
         \<and> \<not> str_includes ''Model returned empty response'' ''timeout''"
  using blank_text_rejected[where generateFn = generateFn and s = s and prompt = prompt, OF assms]
  by simp

theorem empty_response_rejected_witness:
  "generateWithCompletion (\<lambda>s p. (Resolves 40 [CHR '' '', CHR 0x0A, CHR 0x09], Suc s)) ''Answer''
       default_options 1 (0, [])
     = (Inl (ErrorObj ''Model returned empty response''), (1, [Called ''Answer'']))"
  using empty_response_rejected_without_retry
          [where generateFn = "\<lambda>s p. (Resolves 40 [CHR '' '', CHR 0x0A, CHR 0x09], Suc s)"
             and s = 0 and prompt = "''Answer''" and t = 40
             and reply = "[CHR '' '', CHR 0x0A, CHR 0x09]"
             and options = default_options and attempt = 1 and tr = "[]"]
  by (simp add: default_options_def or_default_def RESPONSE_TIMEOUT_def is_space_def)

text \<open>
  The claim as stated speaks of every capability that resolves with an empty or
  whitespace-only reply. A capability whose empty reply arrives after the timeout window
  (here after 700000 ms, under the default window of 600000 ms) loses the race each time:
  the controller calls it three times, waiting 1000 ms between the calls, and rejects
  with "Response timeout", not with the empty-response error.
\<close>

theorem empty_response_counterexample:
  "generateWithCompletion (\<lambda>s p. (Resolves 700000 '''', Suc s)) ''Answer'' default_options 1
       (0, [])
     = (Inl (ErrorObj ''Response timeout''),
        (3, [Called ''Answer'', Waited 1000, Called ''Answer'', Waited 1000, Called ''Answer'']))"
proof -
  let ?g = "\<lambda>(s::nat) (p::string). (Resolves 700000 '''', Suc s)"
  have mr: "or_default (maxRetries default_options) MAX_RETRIES = 3"
    and tm: "or_default (timeout default_options) RESPONSE_TIMEOUT = 600000"
    by (simp_all add: default_options_def or_default_def MAX_RETRIES_def RESPONSE_TIMEOUT_def)
  have sp: "shorterPrompt ''Answer'' = ''Answer''"
    by (simp add: shorterPrompt_def)
  have step: "\<And>a s tr. generateWithCompletion ?g ''Answer'' default_options a (s, tr) =
        (if a < 3 then generateWithCompletion ?g ''Answer'' default_options (a + 1)
                         (Suc s, tr @ [Called ''Answer'', Waited 1000])
         else (Inl (ErrorObj ''Response timeout''), (Suc s, tr @ [Called ''Answer''])))"
    by (subst generateWithCompletion.simps) (simp add: Let_def wait_def race_def mr tm sp)
  show ?thesis
    by (simp add: step)
qed

text \<open>
  Claim C9. When the generation call does not settle within the timeout window, the
  controller's own rejection "Response timeout" is caught by its timeout branch: while
  \<open>attempt < maxRetries\<close> the call continues, after a wait of 1000 ms, as the next attempt
  on the shortened prompt; the timeout error reaches the caller only when
  \<open>attempt \<ge> maxRetries\<close>.
\<close>

theorem unsettled_call_is_retried:
  assumes "generateFn s prompt = (out, s')"
    and "\<not> settles_within (or_default (timeout options) RESPONSE_TIMEOUT) out"
  shows "generateWithCompletion generateFn prompt options attempt (s, tr) =
           (if attempt < or_default (maxRetries options) MAX_RETRIES
            then generateWithCompletion generateFn (shorterPrompt prompt) options (attempt + 1)
                   (s', tr @ [Called prompt, Waited 1000])
            else (Inl (ErrorObj ''Response timeout''), (s', tr @ [Called prompt])))"
  using timeout_error_step[where generateFn = generateFn and s = s and prompt = prompt,
          OF assms(1) race_timeout[OF assms(2)] timeout_msg]
  by simp

theorem unsettled_call_witness:
  "generateWithCompletion (\<lambda>s p. (Pending, Suc s)) (replicate 501 CHR ''x'')
       \<lparr>maxRetries = Some 2, timeout = Some 1000, continuationPrompt = None\<rparr> 1 (0, [])
     = (Inl (ErrorObj ''Response timeout''),
        (2, [Called (replicate 501 CHR ''x''), Waited 1000,
             Called (replicate 500 CHR ''x'' @ [CHR 0x0A, CHR 0x0A]
                       @ ''Please provide a direct answer.'')]))"
proof -
  let ?g = "\<lambda>(s::nat) (p::string). (Pending, Suc s)"
  let ?o = "\<lparr>maxRetries = Some 2, timeout = Some 1000, continuationPrompt = None\<rparr>"
  have sp: "shorterPrompt (replicate 501 CHR ''x'')
              = replicate 500 CHR ''x'' @ [CHR 0x0A, CHR 0x0A] @ ''Please provide a direct answer.''"
    by (simp add: shorterPrompt_def)
  have one: "generateWithCompletion ?g (replicate 501 CHR ''x'') ?o 1 (0, [])
        = generateWithCompletion ?g (shorterPrompt (replicate 501 CHR ''x'')) ?o 2
            (1, [Called (replicate 501 CHR ''x''), Waited 1000])"
    using unsettled_call_is_retried
            [where generateFn = ?g and s = 0 and prompt = "replicate 501 CHR ''x''"
               and out = Pending and options = ?o and attempt = 1 and tr = "[]"]
    by (simp add: settles_within_def or_default_def MAX_RETRIES_def)
  have two: "generateWithCompletion ?g (shorterPrompt (replicate 501 CHR ''x'')) ?o 2
            (1, [Called (replicate 501 CHR ''x''), Waited 1000])
        = (Inl (ErrorObj ''Response timeout''),
           (2, [Called (replicate 501 CHR ''x''), Waited 1000,
                Called (shorterPrompt (replicate 501 CHR ''x''))]))"
    by (simp add: exhausted or_default_def race_def)
  show ?thesis using one two sp by simp
qed

text \<open>
  Claim C10. The options are merged with \<open>||\<close>, so an explicit falsy value is replaced by
  the default: \<open>maxRetries: 0\<close> behaves as \<open>maxRetries: 3\<close>, \<open>timeout: 0\<close> as
  \<open>timeout: 600000\<close>, and an empty \<open>continuationPrompt\<close> as the default instruction, for
  every capability, prompt, attempt and starting state.
\<close>

theorem falsy_options_fall_back_to_defaults:
  "generateWithCompletion g p (options\<lparr>maxRetries := Some 0\<rparr>) a w
     = generateWithCompletion g p (options\<lparr>maxRetries := Some 3\<rparr>) a w
   \<and> generateWithCompletion g p (options\<lparr>timeout := Some 0\<rparr>) a w
     = generateWithCompletion g p (options\<lparr>timeout := Some 600000\<rparr>) a w
   \<and> generateWithCompletion g p (options\<lparr>continuationPrompt := Some []\<rparr>) a w
     = generateWithCompletion g p
         (options\<lparr>continuationPrompt :=
            Some ''Please complete your previous response starting from where you left off.''\<rparr>) a w"
  by (intro conjI options_cong)
     (simp_all add: or_default_def or_default_str_def MAX_RETRIES_def RESPONSE_TIMEOUT_def
        CONTINUATION_PROMPT_def)

theorem falsy_options_witness:
  "generateWithCompletion (\<lambda>s p. (Pending, Suc s)) ''Answer''
       \<lparr>maxRetries = Some 0, timeout = Some 0, continuationPrompt = Some []\<rparr> 3 (0, [])
     = generateWithCompletion (\<lambda>s p. (Pending, Suc s)) ''Answer''
       \<lparr>maxRetries = Some 3, timeout = Some 0, continuationPrompt = Some []\<rparr> 3 (0, [])"
  using falsy_options_fall_back_to_defaults
          [where g = "\<lambda>s p. (Pending, Suc s)" and p = "''Answer''"
             and options = "\<lparr>maxRetries = Some 0, timeout = Some 0, continuationPrompt = Some []\<rparr>"
             and a = 3 and w = "(0, [])"]
  by simp

text \<open>
  Claim C5. \<open>combinePartialResponses\<close> splits both trimmed inputs on runs of whitespace
  and looks at the sizes \<open>N\<close> from 1 to the smallest of 10 and the two token counts for
  which the last \<open>N\<close> tokens of the first input equal, ignoring case, the first \<open>N\<close>
  tokens of the second. When there is such a size it returns the tokens of the first
  input followed by the tokens of the second from index the largest such \<open>N\<close> on, joined
  by single spaces; when there is none it returns the two trimmed inputs joined by a
  blank line. The two examples of the specification are instances.
\<close>

theorem combinePartialResponses_merges_largest_overlap:
  "combinePartialResponses first second =
     (let words1 = split (plus space) no_flags (trim first);
          words2 = split (plus space) no_flags (trim second);
          overlaps = {N. 1 \<le> N \<and> N \<le> min 10 (min (length words1) (length words2))
                        \<and> map toLowerCase (slice_last N words1) = map toLowerCase (take N words2)}
      in if overlaps = {} then trim first @ [CHR 0x0A, CHR 0x0A] @ trim second
         else join '' '' (words1 @ drop (Max overlaps) words2))
   \<and> combinePartialResponses ''The cat sat on the'' ''the mat today''
         = ''The cat sat on the mat today''
   \<and> combinePartialResponses ''Hello world'' ''Goodbye now''
         = ''Hello world'' @ [CHR 0x0A, CHR 0x0A] @ ''Goodbye now''"
proof (intro conjI)
  define words1 where "words1 = split (plus space) no_flags (trim first)"
  define words2 where "words2 = split (plus space) no_flags (trim second)"
  define m where "m = min 10 (min (length words1) (length words2))"
  define J where "J = (\<lambda>i. toLowerCase (join '' '' (slice_last i words1))
                          = toLowerCase (join '' '' (take i words2)))"
  define T where "T = (\<lambda>i. map toLowerCase (slice_last i words1) = map toLowerCase (take i words2))"
  have JT: "{i. 1 \<le> i \<and> i \<le> m \<and> J i} = {i. 1 \<le> i \<and> i \<le> m \<and> T i}"
  proof -
    have "J i = T i" if "i \<le> m" for i
      unfolding J_def T_def
      by (rule overlap_test[OF words1_def words2_def]) (use that in \<open>simp_all add: m_def\<close>)
    then show ?thesis by auto
  qed
  have st: "overlap_step words1 words2 = (\<lambda>ov i. if J i then i else ov)"
    by (intro ext) (simp add: overlap_step_def J_def Let_def)
  have ov: "foldl (overlap_step words1 words2) 0 [1 ..< Suc m] =
          (if {i. 1 \<le> i \<and> i \<le> m \<and> T i} = {} then 0 else Max {i. 1 \<le> i \<and> i \<le> m \<and> T i})"
    unfolding st foldl_last_match JT ..
  define S where "S = {i. 1 \<le> i \<and> i \<le> m \<and> T i}"
  have pos: "0 < Max S" if "S \<noteq> {}"
  proof -
    have "Max S \<in> S"
      by (rule Max_in) (use that in \<open>auto simp: S_def\<close>)
    then show ?thesis by (simp add: S_def)
  qed
  have lhs: "combinePartialResponses first second =
          (if S = {} then trim first @ [CHR 0x0A, CHR 0x0A] @ trim second
           else join '' '' (words1 @ drop (Max S) words2))"
  proof (cases "S = {}")
    case True
    then show ?thesis
      unfolding combinePartialResponses_def Let_def
      unfolding words1_def[symmetric] words2_def[symmetric] m_def[symmetric] ov S_def[symmetric]
      by simp
  next
    case False
    then show ?thesis
      unfolding combinePartialResponses_def Let_def
      unfolding words1_def[symmetric] words2_def[symmetric] m_def[symmetric] ov S_def[symmetric]
      using pos by simp
  qed
  have rhs: "{N. 1 \<le> N \<and> N \<le> min 10 (min (length words1) (length words2))
                 \<and> map toLowerCase (slice_last N words1) = map toLowerCase (take N words2)} = S"
    by (simp add: S_def T_def m_def)
  show "combinePartialResponses first second =
     (let words1 = split (plus space) no_flags (trim first);
          words2 = split (plus space) no_flags (trim second);
          overlaps = {N. 1 \<le> N \<and> N \<le> min 10 (min (length words1) (length words2))
                        \<and> map toLowerCase (slice_last N words1) = map toLowerCase (take N words2)}
      in if overlaps = {} then trim first @ [CHR 0x0A, CHR 0x0A] @ trim second
         else join '' '' (words1 @ drop (Max overlaps) words2))"
    unfolding Let_def words1_def[symmetric] words2_def[symmetric] rhs
    by (rule lhs)
next
  show "combinePartialResponses ''The cat sat on the'' ''the mat today''
         = ''The cat sat on the mat today''"
    by code_simp
next
  show "combinePartialResponses ''Hello world'' ''Goodbye now''
         = ''Hello world'' @ [CHR 0x0A, CHR 0x0A] @ ''Goodbye now''"
    by code_simp
qed

theorem combinePartialResponses_witness:
  "combinePartialResponses ''  Alpha BETA gamma '' ''beta Gamma delta''
     = ''Alpha BETA gamma delta''"
proof -
  have a: "split (plus space) no_flags (trim ''  Alpha BETA gamma '') = [''Alpha'', ''BETA'', ''gamma'']"
    by code_simp
  have b: "split (plus space) no_flags (trim ''beta Gamma delta'') = [''beta'', ''Gamma'', ''delta'']"
    by code_simp
  define P where "P = (\<lambda>N. map toLowerCase (slice_last N [''Alpha'', ''BETA'', ''gamma''])
                            = map toLowerCase (take N [''beta'', ''Gamma'', ''delta'']))"
  have P1: "\<not> P 1" unfolding P_def by code_simp
  have P2: "P 2" unfolding P_def by code_simp
  have P3: "\<not> P 3" unfolding P_def by code_simp
  have S: "{N. 1 \<le> N \<and> N \<le> min 10 (min (length [''Alpha'', ''BETA'', ''gamma''])
                                         (length [''beta'', ''Gamma'', ''delta'']))
               \<and> map toLowerCase (slice_last N [''Alpha'', ''BETA'', ''gamma''])
                 = map toLowerCase (take N [''beta'', ''Gamma'', ''delta''])} = {2}"
  proof -
    have "(1 \<le> N \<and> N \<le> 3 \<and> P N) = (N = 2)" for N
    proof
      assume h: "1 \<le> N \<and> N \<le> 3 \<and> P N"
      then have "N = 1 \<or> N = 2 \<or> N = 3" by arith
      then show "N = 2" using h P1 P3 by blast
    next
      assume "N = 2" then show "1 \<le> N \<and> N \<le> 3 \<and> P N" using P2 by simp
    qed
    then have "{N. 1 \<le> N \<and> N \<le> 3 \<and> P N} = {2}" by blast
    moreover have "min 10 (min (length [''Alpha'', ''BETA'', ''gamma''])
                                (length [''beta'', ''Gamma'', ''delta''])) = (3::nat)"
      by simp
    ultimately show ?thesis unfolding P_def by (simp only:)
  qed
  have j: "join '' '' ([''Alpha'', ''BETA'', ''gamma''] @ drop 2 [''beta'', ''Gamma'', ''delta''])
             = ''Alpha BETA gamma delta''"
    by (simp add: join_def)
  show ?thesis
    using combinePartialResponses_merges_largest_overlap
            [where first = "''  Alpha BETA gamma ''" and second = "''beta Gamma delta''"]
    unfolding Let_def a b S
    using j by simp
qed

text \<open>
  What \<open>detectResponseIssues\<close> computes: four checks in a fixed order, the first that holds
  deciding the reason. Its first check is met by a word, starting where a word starts,
  that is followed by five or more further copies of it, each after whitespace and equal
  to it up to case; the last copy need not end where a word ends.
\<close>

lemma detectResponseIssues_checks:
  "detectResponseIssues s = first_issue False s"
proof -
  have b: "str_includes s ''{'' = (CHR ''{'' \<in> set s)" "str_includes s ''}'' = (CHR ''}'' \<in> set s)"
    by (rule str_includes_char)+
  have a: "(length s > 100 \<and> \<not> regex_test endPunctuation no_flags (trim s)) = abrupt_ending s"
    unfolding abrupt_ending_def end_punctuation_iff ..
  show ?thesis
    unfolding detectResponseIssues_def first_issue_def a
      incomplete_json_def unclosed_thinking_def
      loop_prefix_iff b str_includes_iff[of s "''<think>''"] str_includes_iff[of s "''</think>''"]
    by simp
qed

text \<open>
  Claim C6. The claim takes the first check to be about whole word tokens: a single
  word token repeated six or more times in a row. The loop pattern
  \<open>/(\b\w+\b)(?:\s+\1){5,}/gi\<close> closes the word with \<open>\b\<close> but not the last \<open>\1\<close>, so the
  beginning of a longer word counts as a copy. In "go go go go go gone." the token "go"
  occurs five times in a row and none of the other checks holds, so the claim gives no
  issue; the function reports a repetitive loop, because the sixth copy is found at the
  beginning of "gone".
\<close>

theorem detectResponseIssues_takes_word_prefix_for_copy:
  "detectResponseIssues ''go go go go go gone.''
     = \<lparr>hasIssue = True, reason = ''Repetitive loop detected''\<rparr>
   \<and> first_issue True ''go go go go go gone.'' = \<lparr>hasIssue = False, reason = ''''\<rparr>"
proof -
  have l: "\<not> word_token_repeated ''go go go go go gone.''"
    unfolding loop_whole_iff[symmetric] by code_simp
  have a: "\<not> abrupt_ending ''go go go go go gone.''"
    by (simp add: abrupt_ending_def)
  have j: "\<not> incomplete_json ''go go go go go gone.''"
    by (simp add: incomplete_json_def)
  have "\<not> str_includes ''go go go go go gone.'' ''<think>''"
    by code_simp
  then have t: "\<not> unclosed_thinking ''go go go go go gone.''"
    unfolding unclosed_thinking_def str_includes_iff by simp
  have d: "detectResponseIssues ''go go go go go gone.''
             = \<lparr>hasIssue = True, reason = ''Repetitive loop detected''\<rparr>"
    by code_simp
  show ?thesis using l a j t d by (simp add: first_issue_def)
qed

text \<open>
  Claim C2. The specification and the comment above the last replacement of
  \<open>cleanJsonText\<close> give \<open>{"a": create patterns now}\<close> as an input whose bare value is quoted
  in full. The function does not do that: the earlier step that quotes single-word
  values turns the text into \<open>{"a": "create" patterns now}\<close>, and the array-element repair
  then drops what follows the first string. The decoder returns the object whose
  member \<open>a\<close> is \<open>"create"\<close>.
\<close>

theorem decode_bare_multiword_value:
  \<open>cleanJsonText ''{"a": create patterns now}'' = ''{"a": "create"}''
   \<and> parseJsonWithResilience ''{"a": create patterns now}''
       = Inr (JObject [(''a'', JString ''create'')])
   \<and> JObject [(''a'', JString ''create'')] \<noteq> JObject [(''a'', JString ''create patterns now'')]\<close>
proof (intro conjI)
  show \<open>cleanJsonText ''{"a": create patterns now}'' = ''{"a": "create"}''\<close>
    by code_simp
  show \<open>parseJsonWithResilience ''{"a": create patterns now}''
          = Inr (JObject [(''a'', JString ''create'')])\<close>
    by code_simp
  show \<open>JObject [(''a'', JString ''create'')] \<noteq> JObject [(''a'', JString ''create patterns now'')]\<close>
    by simp
qed

text \<open>
  Claim C3. The cleanup pipeline is not idempotent. On \<open>{"a": "\q"}\<close> the escape repair
  turns the backslash into three, and a second run turns the three into five: the first
  replacement doubles the backslash of the invalid escape, and the second replacement
  doubles the second backslash of that pair again.
\<close>

theorem cleanJsonText_not_idempotent:
  \<open>cleanJsonText (''{"a": "'' @ [CHR 0x5C] @ ''q"}'')
     = ''{"a": "'' @ [CHR 0x5C, CHR 0x5C, CHR 0x5C] @ ''q"}''
   \<and> cleanJsonText (cleanJsonText (''{"a": "'' @ [CHR 0x5C] @ ''q"}''))
     = ''{"a": "'' @ [CHR 0x5C, CHR 0x5C, CHR 0x5C, CHR 0x5C, CHR 0x5C] @ ''q"}''
   \<and> cleanJsonText (cleanJsonText (''{"a": "'' @ [CHR 0x5C] @ ''q"}''))
     \<noteq> cleanJsonText (''{"a": "'' @ [CHR 0x5C] @ ''q"}'')\<close>
proof -
  have a: \<open>cleanJsonText (''{"a": "'' @ [CHR 0x5C] @ ''q"}'')
     = ''{"a": "'' @ [CHR 0x5C, CHR 0x5C, CHR 0x5C] @ ''q"}''\<close>
    by code_simp
  have b: \<open>cleanJsonText (''{"a": "'' @ [CHR 0x5C, CHR 0x5C, CHR 0x5C] @ ''q"}'')
     = ''{"a": "'' @ [CHR 0x5C, CHR 0x5C, CHR 0x5C, CHR 0x5C, CHR 0x5C] @ ''q"}''\<close>
    by code_simp
  show ?thesis unfolding a b by simp
qed

text \<open>
  Claim C4, as amended. For every candidate text that contains no \<open>}\<close>, the
  array-element repair \<open>fixArrayElementSeparation\<close> returns a text that ends in exactly as
  many \<open>}\<close> as the candidate has \<open>{\<close> (the missing number), and these are the only \<open>}\<close> of
  the result: the result is its other characters followed by that many closing braces.
  For a candidate that contains a \<open>}\<close> the repair adds no closing brace, also when the
  \<open>{\<close> outnumber the \<open>}\<close>: the result has as many \<open>}\<close> as the candidate.
\<close>

theorem closing_braces_appended_when_none_present:
  "if CHR ''}'' \<in> set s
   then count_list (fixArrayElementSeparation s) CHR ''}'' = count_list s CHR ''}''
   else fixArrayElementSeparation s
          = filter (\<lambda>c. c \<noteq> CHR ''}'') (fixArrayElementSeparation s)
              @ replicate (count_list s CHR ''{'') CHR ''}''"
proof (cases "CHR ''}'' \<in> set s")
  case True
  then have "count_list (before_closing s) CHR ''}'' \<noteq> 0"
    by (simp add: before_closing_closing count_list_0_iff)
  then have "CHR ''}'' \<in> set (before_closing s)" by (simp add: count_list_0_iff)
  then have "closeTruncatedObject (before_closing s) = before_closing s"
    unfolding closeTruncatedObject_eq by simp
  then show ?thesis using True by (simp add: closing_count_kept before_closing_closing)
next
  case False
  from fixArrayElementSeparation_tail[OF False] obtain body where
    b: "fixArrayElementSeparation s = body @ replicate (count_list s CHR ''{'') CHR ''}''"
       "CHR ''}'' \<notin> set body"
    by blast
  have "filter (\<lambda>c. c \<noteq> CHR ''}'') (fixArrayElementSeparation s) = body"
    using b by (rule filter_tail)
  then show ?thesis using False b(1) by simp
qed

theorem closing_braces_witness:
  \<open>fixArrayElementSeparation ''{"a": {"b": 1,'' = ''{"a": {"b": 1}}''
   \<and> fixArrayElementSeparation ''{"a": {"b": 1,''
       = filter (\<lambda>c. c \<noteq> CHR ''}'') (fixArrayElementSeparation ''{"a": {"b": 1,'') @ ''}}''
   \<and> count_list (fixArrayElementSeparation ''{"a": {"b": 1}'') CHR ''}'' = 1\<close>
proof -
  have \<open>fixArrayElementSeparation ''{"a": {"b": 1,'' = ''{"a": {"b": 1}}''\<close>
    by code_simp
  then show ?thesis
    using closing_braces_appended_when_none_present[of \<open>''{"a": {"b": 1,''\<close>]
      closing_braces_appended_when_none_present[of \<open>''{"a": {"b": 1}''\<close>]
    by simp
qed

text \<open>
  The claim as stated: in \<open>{{}\<close> the opening braces outnumber the closing ones by one,
  and the repair returns the text unchanged.
\<close>

theorem closing_braces_counterexample:
  "count_list ''{{}'' CHR ''{'' > count_list ''{{}'' CHR ''}''
   \<and> fixArrayElementSeparation ''{{}'' = ''{{}''"
proof -
  have "fixArrayElementSeparation ''{{}'' = ''{{}''" by code_simp
  then show ?thesis by simp
qed

end
